theory Spec2Isabelle
  imports Complex_Main "HOL-Library.Log_Nat"
begin

section \<open>Values of the runtime library used by the controller\<close>

text \<open>
  The controller (\<^verbatim>\<open>Plugin/CppApi/source/TimeSliderController.cpp\<close>) computes on three
  value types of the runtime library and of Qt: \<^verbatim>\<open>QDateTime\<close>, \<^verbatim>\<open>TimeExtent\<close> and
  \<^verbatim>\<open>TimeValue\<close>. Only the operations the controller calls are modelled.

  A \<^verbatim>\<open>QDateTime\<close> is either null (default constructed, invalid) or an instant, held as the
  number of milliseconds since the epoch (a \<^verbatim>\<open>qint64\<close>, modelled as an unbounded integer).
  Qt 5 compares two \<^verbatim>\<open>QDateTime\<close> values by their millisecond counts, and the count of a
  null value is 0; \<^verbatim>\<open>addMSecs\<close> on a null value returns a null value.
\<close>

type_synonym QDateTime = "int option"

definition toMSecsSinceEpoch :: "QDateTime \<Rightarrow> int" where
  "toMSecsSinceEpoch d = (case d of None \<Rightarrow> 0 | Some ms \<Rightarrow> ms)"

definition fromMSecsSinceEpoch :: "int \<Rightarrow> QDateTime" where
  "fromMSecsSinceEpoch ms = Some ms"

definition addMSecs :: "QDateTime \<Rightarrow> int \<Rightarrow> QDateTime" where
  "addMSecs d ms = (case d of None \<Rightarrow> None | Some t \<Rightarrow> Some (t + ms))"

definition dt_less :: "QDateTime \<Rightarrow> QDateTime \<Rightarrow> bool" where
  "dt_less a b = (toMSecsSinceEpoch a < toMSecsSinceEpoch b)"

definition dt_greater :: "QDateTime \<Rightarrow> QDateTime \<Rightarrow> bool" where
  "dt_greater a b = dt_less b a"

definition dt_eq :: "QDateTime \<Rightarrow> QDateTime \<Rightarrow> bool" where
  "dt_eq a b = (toMSecsSinceEpoch a = toMSecsSinceEpoch b)"

text \<open>
  A \<^verbatim>\<open>TimeExtent\<close> is empty (default constructed) or built from a start and an end time by
  the two-argument constructor. The accessors of an empty extent return null times.
\<close>

datatype TimeExtent = EmptyTimeExtent | TimeExtent QDateTime QDateTime

fun isEmpty :: "TimeExtent \<Rightarrow> bool" where
  "isEmpty EmptyTimeExtent = True"
| "isEmpty (TimeExtent s e) = False"

fun startTime :: "TimeExtent \<Rightarrow> QDateTime" where
  "startTime EmptyTimeExtent = None"
| "startTime (TimeExtent s e) = s"

fun endTime :: "TimeExtent \<Rightarrow> QDateTime" where
  "endTime EmptyTimeExtent = None"
| "endTime (TimeExtent s e) = e"

datatype TimeUnit =
  UnknownUnit | Centuries | Days | Decades | Hours | Milliseconds | Minutes | Months
  | Seconds | Weeks | Years

text \<open>
  A \<^verbatim>\<open>TimeValue\<close> is empty (default constructed: duration 0, unit unknown) or a duration
  with a unit. The duration is a \<^verbatim>\<open>double\<close>; doubles are modelled as exact rationals, so
  the model follows the code wherever the floating-point operations are exact (whole
  numbers of milliseconds below \<open>2 ^ 53\<close>, and the dyadic fractions used below). The
  arithmetic of the step count is rounded as the program rounds it (\<open>stepCount\<close> below).
\<close>

datatype TimeValue = EmptyTimeValue | TimeValue rat TimeUnit

fun isEmptyTV :: "TimeValue \<Rightarrow> bool" where
  "isEmptyTV EmptyTimeValue = True"
| "isEmptyTV (TimeValue d u) = False"

fun duration :: "TimeValue \<Rightarrow> rat" where
  "duration EmptyTimeValue = 0"
| "duration (TimeValue d u) = d"

fun unit :: "TimeValue \<Rightarrow> TimeUnit" where
  "unit EmptyTimeValue = UnknownUnit"
| "unit (TimeValue d u) = u"

text \<open>
  Conversion of a \<^verbatim>\<open>double\<close> to \<^verbatim>\<open>int\<close> (32 bits) and to \<^verbatim>\<open>qint64\<close>: the value is
  truncated toward zero, and the conversion is undefined (\<open>None\<close>) when the truncated
  value does not fit. A division by zero yields an infinity or a NaN, which no
  conversion accepts, so the quotient is \<open>None\<close> as well.
\<close>

definition trunc :: "rat \<Rightarrow> int" where
  "trunc x = (if 0 \<le> x then \<lfloor>x\<rfloor> else \<lceil>x\<rceil>)"

definition toInt :: "rat \<Rightarrow> int option" where
  "toInt x = (if - (2 ^ 31) \<le> trunc x \<and> trunc x < 2 ^ 31 then Some (trunc x) else None)"

definition toInt64 :: "rat \<Rightarrow> int option" where
  "toInt64 x = (if - (2 ^ 63) \<le> trunc x \<and> trunc x < 2 ^ 63 then Some (trunc x) else None)"

definition ddiv :: "rat \<Rightarrow> rat \<Rightarrow> rat option" where
  "ddiv x y = (if y = 0 then None else Some (x / y))"

text \<open>
  The result of a floating-point operation is the exact result rounded to a
  \<^verbatim>\<open>double\<close>: the nearest value with 53 significant bits, and of two nearest ones the one
  with an even last bit. \<open>binade x\<close> is the exponent \<open>e\<close> with \<open>2 ^ e \<le> x < 2 ^ (e + 1)\<close>,
  for a positive \<open>x\<close>. The exponent range is not bounded: an overflow to infinity is a
  value that no \<^verbatim>\<open>int\<close> holds either way, and a quotient small enough to be subnormal
  disappears in the sum with 1.
\<close>

definition roundEven :: "rat \<Rightarrow> int" where
  "roundEven z =
     (let f = \<lfloor>z\<rfloor>; d = z - of_int f
      in if d < 1 / 2 then f else if 1 / 2 < d then f + 1 else if even f then f else f + 1)"

definition binade :: "rat \<Rightarrow> int" where
  "binade x =
     (if 1 \<le> x then int (floorlog 2 (nat \<lfloor>x\<rfloor>)) - 1
      else - int (floorlog 2 (nat (\<lceil>1 / x\<rceil> - 1))))"

definition roundToDouble :: "rat \<Rightarrow> rat" where
  "roundToDouble x =
     (if x = 0 then 0
      else let ulp = 2 powi (binade \<bar>x\<bar> - 52)
           in sgn x * of_int (roundEven (\<bar>x\<bar> / ulp)) * ulp)"

section \<open>The free functions of the controller\<close>

text \<open>\<^verbatim>\<open>unionTimeExtent\<close>, lines 43 to 53.\<close>

definition unionTimeExtent :: "TimeExtent \<Rightarrow> TimeExtent \<Rightarrow> TimeExtent" where
  "unionTimeExtent timeExtent otherTimeExtent =
     (if isEmpty otherTimeExtent then timeExtent
      else TimeExtent
        (if dt_less (startTime timeExtent) (startTime otherTimeExtent)
         then startTime timeExtent else startTime otherTimeExtent)
        (if dt_greater (endTime timeExtent) (endTime otherTimeExtent)
         then endTime timeExtent else endTime otherTimeExtent))"

text \<open>\<^verbatim>\<open>toTimeUnit\<close>, lines 58 to 77.\<close>

definition toTimeUnit :: "rat \<Rightarrow> TimeUnit" where
  "toTimeUnit milisecondsRange =
     (let daysPerYear = 365;
          millisecondsPerDay = 86400000;
          millisecondsPerHour = 3600000;
          millisecondsPerMinute = 60000
      in if milisecondsRange < millisecondsPerMinute then Seconds
         else if milisecondsRange < millisecondsPerHour then Minutes
         else if milisecondsRange < millisecondsPerDay then Hours
         else if milisecondsRange < millisecondsPerDay * daysPerYear then Days
         else if milisecondsRange > millisecondsPerDay * daysPerYear * 100 then Centuries
         else Years)"

text \<open>\<^verbatim>\<open>toMilliseconds\<close>, lines 82 to 118.\<close>

definition toMilliseconds :: "TimeValue \<Rightarrow> rat" where
  "toMilliseconds timeValue =
     (let millisecondsPerDay = 86400000;
          daysPerCentury = 36500;
          daysPerDecade = 3650;
          daysPerYear = 365;
          mothsPerYear = 12;
          millisecondsPerHour = 3600000;
          millisecondsPerMinute = 60000;
          millisecondsPerSecond = 1000
      in case unit timeValue of
           Centuries \<Rightarrow> duration timeValue * millisecondsPerDay * daysPerCentury
         | Decades \<Rightarrow> duration timeValue * millisecondsPerDay * daysPerDecade
         | Years \<Rightarrow> duration timeValue * millisecondsPerDay * daysPerYear
         | Months \<Rightarrow> duration timeValue * (daysPerYear / mothsPerYear) * millisecondsPerDay
         | Weeks \<Rightarrow> duration timeValue * 604800000
         | Days \<Rightarrow> duration timeValue * millisecondsPerDay
         | Hours \<Rightarrow> duration timeValue * millisecondsPerHour
         | Minutes \<Rightarrow> duration timeValue * millisecondsPerMinute
         | Seconds \<Rightarrow> duration timeValue * millisecondsPerSecond
         | Milliseconds \<Rightarrow> duration timeValue
         | UnknownUnit \<Rightarrow> duration timeValue)"

text \<open>\<^verbatim>\<open>operator >\<close> on time values, lines 123 to 129.\<close>

definition tv_greater :: "TimeValue \<Rightarrow> TimeValue \<Rightarrow> bool" where
  "tv_greater timeValue otherTimeValue =
     (if unit timeValue = unit otherTimeValue
      then duration timeValue > duration otherTimeValue
      else toMilliseconds timeValue > toMilliseconds otherTimeValue)"

text \<open>\<^verbatim>\<open>operator ==\<close> on time extents, lines 134 to 138.\<close>

definition extent_eq :: "TimeExtent \<Rightarrow> TimeExtent \<Rightarrow> bool" where
  "extent_eq timeExtent otherTimeExtent =
     (dt_eq (startTime timeExtent) (startTime otherTimeExtent)
      \<and> dt_eq (endTime timeExtent) (endTime otherTimeExtent))"

section \<open>Layers and the controller's state\<close>

text \<open>
  What the controller reads of a layer: its load status, its visibility and, when the
  \<^verbatim>\<open>dynamic_cast\<close> to \<^verbatim>\<open>TimeAware\<close> succeeds, its full time extent, its time interval and
  whether time filtering is enabled.
\<close>

datatype LoadStatus = Loaded | Loading | FailedToLoad | NotLoaded | UnknownStatus

record TimeAware =
  fullTimeExtent :: TimeExtent
  timeInterval :: TimeValue
  isTimeFilteringEnabled :: bool

record Layer =
  loadStatus :: LoadStatus
  isVisible :: bool
  timeAware :: "TimeAware option"

datatype Signal =
  numberOfStepsChanged | fullTimeExtentChanged | currentTimeExtentChanged
  | startStepChanged | endStepChanged | stepTimesChanged

text \<open>
  The members of \<^verbatim>\<open>TimeSliderController\<close>. A view pointer is \<open>None\<close> when null and
  otherwise holds the time extent the view reports; the view's \<^verbatim>\<open>setTimeExtent\<close> stores the
  extent it is given. The layer list is \<open>None\<close> when the pointer is null, and a layer of
  the list is \<open>None\<close> when \<^verbatim>\<open>at(i)\<close> returns null. Three fields record the effects: the
  signals emitted, the calls of the view's \<^verbatim>\<open>setTimeExtent\<close>, and the rows of the layers whose
  \<^verbatim>\<open>doneLoading\<close> signal was connected, each in order.
\<close>

record TimeSliderController =
  m_mapView :: "TimeExtent option"
  m_sceneView :: "TimeExtent option"
  m_operationalLayers :: "Layer option list option"
  m_fullTimeExtent :: TimeExtent
  m_intervalMS :: rat
  m_numberOfSteps :: int
  m_stepTimes :: "QDateTime list"
  m_startStep :: int
  m_endStep :: int
  emitted :: "Signal list"
  setTimeExtentCalls :: "TimeExtent list"
  doneLoadingConnections :: "nat list"

definition emit :: "Signal \<Rightarrow> TimeSliderController \<Rightarrow> TimeSliderController" where
  "emit sig s = s\<lparr>emitted := emitted s @ [sig]\<rparr>"

text \<open>The getters, lines 336 to 387.\<close>

definition fullExtentStart :: "TimeSliderController \<Rightarrow> QDateTime" where
  "fullExtentStart s = startTime (m_fullTimeExtent s)"

definition fullExtentEnd :: "TimeSliderController \<Rightarrow> QDateTime" where
  "fullExtentEnd s = endTime (m_fullTimeExtent s)"

definition currentTimeExtent :: "TimeSliderController \<Rightarrow> TimeExtent" where
  "currentTimeExtent s =
     (let geoViewExtent =
        (case m_sceneView s of
           Some e \<Rightarrow> e
         | None \<Rightarrow> (case m_mapView s of Some e \<Rightarrow> e | None \<Rightarrow> m_fullTimeExtent s))
      in if isEmpty geoViewExtent then m_fullTimeExtent s else geoViewExtent)"

definition currentExtentStart :: "TimeSliderController \<Rightarrow> QDateTime" where
  "currentExtentStart s = startTime (currentTimeExtent s)"

definition currentExtentEnd :: "TimeSliderController \<Rightarrow> QDateTime" where
  "currentExtentEnd s = endTime (currentTimeExtent s)"

text \<open>The guarded setters, lines 306 to 313 and 352 to 359.\<close>

definition setNumberOfSteps :: "int \<Rightarrow> TimeSliderController \<Rightarrow> TimeSliderController" where
  "setNumberOfSteps numberOfSteps s =
     (if numberOfSteps = m_numberOfSteps s then s
      else emit numberOfStepsChanged (s\<lparr>m_numberOfSteps := numberOfSteps\<rparr>))"

definition setFullTimeExtent :: "TimeExtent \<Rightarrow> TimeSliderController \<Rightarrow> TimeSliderController" where
  "setFullTimeExtent fullTimeExtent' s =
     (if extent_eq fullTimeExtent' (m_fullTimeExtent s) then s
      else emit fullTimeExtentChanged (s\<lparr>m_fullTimeExtent := fullTimeExtent'\<rparr>))"

text \<open>
  \<^verbatim>\<open>setStepTimes\<close>, lines 315 to 323. The loop counts \<open>i\<close> from 0 while it is below
  \<^verbatim>\<open>m_numberOfSteps\<close>; \<^verbatim>\<open>i * m_intervalMS\<close> is a double, converted to the \<^verbatim>\<open>qint64\<close>
  that \<^verbatim>\<open>addMSecs\<close> takes.
\<close>

function stepTimesLoop ::
  "int \<Rightarrow> int \<Rightarrow> QDateTime \<Rightarrow> rat \<Rightarrow> QDateTime list \<Rightarrow> QDateTime list option" where
  "stepTimesLoop i n start intervalMS acc =
     (if i < n then
        (case toInt64 (of_int i * intervalMS) of
           None \<Rightarrow> None
         | Some ms \<Rightarrow> stepTimesLoop (i + 1) n start intervalMS (acc @ [addMSecs start ms]))
      else Some acc)"
  by pat_completeness auto
termination
  by (relation "measure (\<lambda>(i, n, start, intervalMS, acc). nat (n - i))") auto

declare stepTimesLoop.simps [simp del]

definition setStepTimes :: "TimeSliderController \<Rightarrow> TimeSliderController option" where
  "setStepTimes s =
     (case stepTimesLoop 0 (m_numberOfSteps s) (startTime (m_fullTimeExtent s)) (m_intervalMS s) [] of
        None \<Rightarrow> None
      | Some ts \<Rightarrow> Some (emit stepTimesChanged (s\<lparr>m_stepTimes := ts\<rparr>)))"

text \<open>
  \<^verbatim>\<open>calculateStepPositions\<close>, lines 490 to 501. The difference of two \<^verbatim>\<open>qint64\<close> counts is
  divided by the double \<^verbatim>\<open>m_intervalMS\<close> and the quotient converted to \<^verbatim>\<open>int\<close>.
\<close>

definition stepOf :: "int \<Rightarrow> int \<Rightarrow> rat \<Rightarrow> int option" where
  "stepOf boundMs fullStartMs intervalMS =
     (case ddiv (of_int (boundMs - fullStartMs)) intervalMS of
        None \<Rightarrow> None
      | Some q \<Rightarrow> toInt q)"

definition calculateStepPositions :: "TimeSliderController \<Rightarrow> TimeSliderController option" where
  "calculateStepPositions s =
     (if isEmpty (m_fullTimeExtent s) then Some s
      else
        let fullStartMs = toMSecsSinceEpoch (fullExtentStart s) in
        case stepOf (toMSecsSinceEpoch (currentExtentStart s)) fullStartMs (m_intervalMS s) of
          None \<Rightarrow> None
        | Some startStep \<Rightarrow>
            (case stepOf (toMSecsSinceEpoch (currentExtentEnd s)) fullStartMs (m_intervalMS s) of
               None \<Rightarrow> None
             | Some endStep \<Rightarrow>
                 Some (emit endStepChanged (emit startStepChanged
                   (s\<lparr>m_startStep := startStep, m_endStep := endStep\<rparr>)))))"

text \<open>
  The step setters, lines 410 to 473. \<^verbatim>\<open>start + (intervalIndex * m_intervalMS)\<close> is a
  double, converted to the \<^verbatim>\<open>qint64\<close> that \<^verbatim>\<open>fromMSecsSinceEpoch\<close> takes.
\<close>

definition stepToMSecs :: "int \<Rightarrow> rat \<Rightarrow> int \<Rightarrow> int option" where
  "stepToMSecs start intervalMS intervalIndex =
     toInt64 (of_int start + of_int intervalIndex * intervalMS)"

definition viewSetTimeExtent :: "TimeExtent \<Rightarrow> TimeSliderController \<Rightarrow> TimeSliderController" where
  "viewSetTimeExtent newExtent s =
     (if m_sceneView s \<noteq> None
      then s\<lparr>m_sceneView := Some newExtent, setTimeExtentCalls := setTimeExtentCalls s @ [newExtent]\<rparr>
      else if m_mapView s \<noteq> None
      then s\<lparr>m_mapView := Some newExtent, setTimeExtentCalls := setTimeExtentCalls s @ [newExtent]\<rparr>
      else s)"

definition pushExtent :: "TimeExtent \<Rightarrow> TimeSliderController \<Rightarrow> TimeSliderController option" where
  "pushExtent newExtent s =
     (case calculateStepPositions (viewSetTimeExtent newExtent s) of
        None \<Rightarrow> None
      | Some s' \<Rightarrow> Some (emit currentTimeExtentChanged s'))"

definition setStartInterval :: "int \<Rightarrow> TimeSliderController \<Rightarrow> TimeSliderController option" where
  "setStartInterval intervalIndex s =
     (if isEmpty (m_fullTimeExtent s) then Some s
      else
        let start = toMSecsSinceEpoch (startTime (m_fullTimeExtent s)) in
        case stepToMSecs start (m_intervalMS s) intervalIndex of
          None \<Rightarrow> None
        | Some ms \<Rightarrow>
            pushExtent (TimeExtent (fromMSecsSinceEpoch ms) (currentExtentEnd s)) s)"

definition setEndInterval :: "int \<Rightarrow> TimeSliderController \<Rightarrow> TimeSliderController option" where
  "setEndInterval intervalIndex s =
     (if isEmpty (m_fullTimeExtent s) then Some s
      else
        let start = toMSecsSinceEpoch (startTime (m_fullTimeExtent s)) in
        case stepToMSecs start (m_intervalMS s) intervalIndex of
          None \<Rightarrow> None
        | Some ms \<Rightarrow>
            pushExtent (TimeExtent (currentExtentStart s) (fromMSecsSinceEpoch ms)) s)"

definition setStartAndEndIntervals ::
  "int \<Rightarrow> int \<Rightarrow> TimeSliderController \<Rightarrow> TimeSliderController option" where
  "setStartAndEndIntervals startIndex endIndex s =
     (if isEmpty (m_fullTimeExtent s) then Some s
      else
        let start = toMSecsSinceEpoch (startTime (m_fullTimeExtent s)) in
        case stepToMSecs start (m_intervalMS s) startIndex of
          None \<Rightarrow> None
        | Some ms \<Rightarrow>
            (case stepToMSecs start (m_intervalMS s) endIndex of
               None \<Rightarrow> None
             | Some me \<Rightarrow>
                 pushExtent (TimeExtent (fromMSecsSinceEpoch ms) (fromMSecsSinceEpoch me)) s))"

text \<open>
  \<^verbatim>\<open>initializeTimeProperties\<close>, lines 232 to 301. The first loop keeps the layers that are
  time aware, loaded (or failed to load), time filtered and visible, and connects the
  \<^verbatim>\<open>doneLoading\<close> signal of those still loading; \<open>i\<close> is the row of the head of the list.
\<close>

fun scanLayers :: "nat \<Rightarrow> Layer option list \<Rightarrow> TimeAware list \<times> nat list" where
  "scanLayers i [] = ([], [])"
| "scanLayers i (l # ls) =
     (let (tas, cs) = scanLayers (Suc i) ls in
      case l of
        None \<Rightarrow> (tas, cs)
      | Some layer \<Rightarrow>
          (case timeAware layer of
             None \<Rightarrow> (tas, cs)
           | Some timeAwareLayer \<Rightarrow>
               if loadStatus layer \<noteq> Loaded \<and> loadStatus layer \<noteq> FailedToLoad then (tas, i # cs)
               else if \<not> isTimeFilteringEnabled timeAwareLayer then (tas, cs)
               else if \<not> isVisible layer then (tas, cs)
               else (timeAwareLayer # tas, cs)))"

text \<open>The second loop, lines 267 to 280: the union of the extents and the largest interval.\<close>

definition pickInterval :: "TimeValue \<Rightarrow> TimeValue \<Rightarrow> TimeValue" where
  "pickInterval timeStepInterval timeAwareInterval =
     (if isEmptyTV timeStepInterval then timeAwareInterval
      else if tv_greater timeAwareInterval timeStepInterval then timeAwareInterval
      else timeStepInterval)"

fun unionLoop ::
  "TimeAware list \<Rightarrow> TimeSliderController \<Rightarrow> TimeValue \<Rightarrow> TimeSliderController \<times> TimeValue" where
  "unionLoop [] s timeStepInterval = (s, timeStepInterval)"
| "unionLoop (ta # tas) s timeStepInterval =
     unionLoop tas
       (setFullTimeExtent (unionTimeExtent (fullTimeExtent ta) (m_fullTimeExtent s)) s)
       (pickInterval timeStepInterval (timeInterval ta))"

text \<open>Lines 286 to 290: the estimate when no layer reported an interval.\<close>

definition resolveInterval :: "TimeValue \<Rightarrow> int \<Rightarrow> TimeValue" where
  "resolveInterval timeStepInterval rangeMs =
     (if isEmptyTV timeStepInterval then TimeValue 1 (toTimeUnit (of_int rangeMs))
      else timeStepInterval)"

text \<open>
  Line 294: \<^verbatim>\<open>(range / m_intervalMS) + 1\<close>, converted to the \<^verbatim>\<open>int\<close> that
  \<^verbatim>\<open>setNumberOfSteps\<close> takes. The \<^verbatim>\<open>qint64\<close> range is converted to a double, divided by
  the interval and increased by 1, each result rounded. The conversion of the sum
  truncates toward zero. There is no range check: when the truncated value does not fit
  an \<^verbatim>\<open>int\<close>, or the sum is an infinity or a NaN (interval 0), the conversion instruction of
  x86-64 yields \<open>- 2 ^ 31\<close>, and that is the count the program stores. (Of the conversions
  in this file only this one is given its stored result outside the range; the others
  stay undefined there.)
\<close>

definition stepCount :: "int \<Rightarrow> rat \<Rightarrow> int" where
  "stepCount rangeMs intervalMS =
     (if intervalMS = 0 then - (2 ^ 31)
      else
        let q = roundToDouble (roundToDouble (of_int rangeMs) / intervalMS);
            v = roundToDouble (q + 1)
        in if - (2 ^ 31) \<le> trunc v \<and> trunc v < 2 ^ 31 then trunc v else - (2 ^ 31))"

text \<open>Lines 282 to 300: the interval, the step count, the step positions and the step times.\<close>

definition deriveSteps :: "TimeValue \<Rightarrow> TimeSliderController \<Rightarrow> TimeSliderController option" where
  "deriveSteps timeStepInterval s =
     (let startMs = toMSecsSinceEpoch (startTime (m_fullTimeExtent s));
          endMs = toMSecsSinceEpoch (endTime (m_fullTimeExtent s));
          rangeMs = endMs - startMs;
          s1 = s\<lparr>m_intervalMS := toMilliseconds (resolveInterval timeStepInterval rangeMs)\<rparr>
      in (case calculateStepPositions
                 (setNumberOfSteps (stepCount rangeMs (m_intervalMS s1)) s1) of
            None \<Rightarrow> None
          | Some s2 \<Rightarrow>
              (case setStepTimes s2 of
                 None \<Rightarrow> None
               | Some s3 \<Rightarrow> Some (emit currentTimeExtentChanged s3))))"

definition initializeTimeProperties :: "TimeSliderController \<Rightarrow> TimeSliderController option" where
  "initializeTimeProperties s =
     (case m_operationalLayers s of
        None \<Rightarrow> Some s
      | Some layers \<Rightarrow>
          (case scanLayers 0 layers of
             (timeAwareLayers, conns) \<Rightarrow>
               (let s1 = s\<lparr>doneLoadingConnections := doneLoadingConnections s @ conns\<rparr>
                in if timeAwareLayers = [] then Some s1
                   else (case unionLoop timeAwareLayers s1 EmptyTimeValue of
                           (s2, timeStepInterval) \<Rightarrow> deriveSteps timeStepInterval s2))))"

text \<open>\<^verbatim>\<open>onOperationalLayersChanged\<close>, lines 543 to 546.\<close>

definition onOperationalLayersChanged :: "TimeSliderController \<Rightarrow> TimeSliderController option" where
  "onOperationalLayersChanged s = initializeTimeProperties s"

section \<open>Vocabulary of the properties\<close>

text \<open>The bounds of an extent in milliseconds, as the controller reads them.\<close>

definition startMs :: "TimeExtent \<Rightarrow> int" where
  "startMs e = toMSecsSinceEpoch (startTime e)"

definition endMs :: "TimeExtent \<Rightarrow> int" where
  "endMs e = toMSecsSinceEpoch (endTime e)"

text \<open>The layers the first loop keeps, and the non-empty intervals they report.\<close>

definition eligible :: "TimeSliderController \<Rightarrow> TimeAware list" where
  "eligible s =
     (case m_operationalLayers s of None \<Rightarrow> [] | Some layers \<Rightarrow> fst (scanLayers 0 layers))"

definition nativeIntervals :: "TimeSliderController \<Rightarrow> TimeValue list" where
  "nativeIntervals s = filter (\<lambda>tv. \<not> isEmptyTV tv) (map timeInterval (eligible s))"

text \<open>One extent contains another: every extent contains the empty one.\<close>

definition extentContains :: "TimeExtent \<Rightarrow> TimeExtent \<Rightarrow> bool" where
  "extentContains new old =
     (isEmpty old \<or> (\<not> isEmpty new \<and> startMs new \<le> startMs old \<and> endMs old \<le> endMs new))"

text \<open>
  A sequence of recomputations: before each one the layer list may have changed, and
  \<^verbatim>\<open>onOperationalLayersChanged\<close> runs on the new list.
\<close>

fun recomputations ::
  "Layer option list option list \<Rightarrow> TimeSliderController \<Rightarrow> TimeSliderController option" where
  "recomputations [] s = Some s"
| "recomputations (layers # rest) s =
     (case onOperationalLayersChanged (s\<lparr>m_operationalLayers := layers\<rparr>) of
        None \<Rightarrow> None
      | Some s' \<Rightarrow> recomputations rest s')"

text \<open>The signals emitted between a state and a later one.\<close>

definition newSignals :: "TimeSliderController \<Rightarrow> TimeSliderController \<Rightarrow> Signal list" where
  "newSignals s s' = drop (length (emitted s)) (emitted s')"


text \<open>
  The step count and the step times of a state agree with its full extent and interval.
  Both are stated for a full extent whose start is not after its end; the second needs
  a start that is a valid time.

  For a range \<open>R\<close> and an interval \<open>I\<close> with \<open>a = \<lfloor>R / I\<rfloor>\<close>: the count \<open>n\<close> is \<open>a + 1\<close> or
  \<open>a + 2\<close> when \<open>a + 2\<close> fits an \<^verbatim>\<open>int\<close>; it is \<open>a + 1\<close> when that fits an \<^verbatim>\<open>int\<close>, the
  interval is a whole number of milliseconds, and range and interval are at most \<open>2 ^ 50\<close>
  milliseconds; and in both cases the list of step times has \<open>n\<close> elements.
\<close>

definition stepCountSpec :: "int \<Rightarrow> rat \<Rightarrow> int \<Rightarrow> nat \<Rightarrow> bool" where
  "stepCountSpec R I n len =
     ((\<lfloor>of_int R / I\<rfloor> + 2 < 2 ^ 31
        \<longrightarrow> \<lfloor>of_int R / I\<rfloor> + 1 \<le> n \<and> n \<le> \<lfloor>of_int R / I\<rfloor> + 2 \<and> int len = n)
      \<and> (I = of_int \<lfloor>I\<rfloor> \<and> R \<le> 2 ^ 50 \<and> I \<le> 2 ^ 50 \<and> \<lfloor>of_int R / I\<rfloor> + 1 < 2 ^ 31
        \<longrightarrow> n = \<lfloor>of_int R / I\<rfloor> + 1 \<and> int len = n))"

definition stepCountInvariant :: "TimeSliderController \<Rightarrow> bool" where
  "stepCountInvariant s =
     (\<not> isEmpty (m_fullTimeExtent s)
      \<and> startMs (m_fullTimeExtent s) \<le> endMs (m_fullTimeExtent s)
      \<and> endMs (m_fullTimeExtent s) - startMs (m_fullTimeExtent s) \<le> 2 ^ 53
      \<and> 0 < m_intervalMS s
      \<longrightarrow> stepCountSpec (endMs (m_fullTimeExtent s) - startMs (m_fullTimeExtent s))
            (m_intervalMS s) (m_numberOfSteps s) (length (m_stepTimes s)))"

definition stepTimesInvariant :: "TimeSliderController \<Rightarrow> bool" where
  "stepTimesInvariant s =
     (\<forall>t0. startTime (m_fullTimeExtent s) = Some t0
        \<and> startMs (m_fullTimeExtent s) \<le> endMs (m_fullTimeExtent s)
      \<longrightarrow> (\<forall>i. 0 \<le> i \<and> i < m_numberOfSteps s \<longrightarrow>
              m_stepTimes s ! nat i = Some (t0 + trunc (of_int i * m_intervalMS s)))
          \<and> sorted (map toMSecsSinceEpoch (m_stepTimes s))
          \<and> (0 < m_numberOfSteps s \<longrightarrow> m_stepTimes s \<noteq> [] \<and> hd (m_stepTimes s) = Some t0))"

section \<open>Example controllers\<close>

text \<open>
  A loaded, visible, time-filtered layer with the given extent and interval; a layer that
  failed to load and so reports no extent and no interval; and a controller as
  constructed, attached to a map view reporting \<open>view\<close> (or to none) and to a layer list.
\<close>

definition exLayer :: "TimeExtent \<Rightarrow> TimeValue \<Rightarrow> Layer option" where
  "exLayer e tv =
     Some \<lparr>loadStatus = Loaded, isVisible = True,
       timeAware = Some \<lparr>fullTimeExtent = e, timeInterval = tv, isTimeFilteringEnabled = True\<rparr>\<rparr>"

definition exFailedLayer :: "Layer option" where
  "exFailedLayer =
     Some \<lparr>loadStatus = FailedToLoad, isVisible = True,
       timeAware = Some \<lparr>fullTimeExtent = EmptyTimeExtent, timeInterval = EmptyTimeValue,
         isTimeFilteringEnabled = True\<rparr>\<rparr>"

definition exController :: "TimeExtent option \<Rightarrow> Layer option list \<Rightarrow> TimeSliderController" where
  "exController view layers =
     \<lparr>m_mapView = view, m_sceneView = None, m_operationalLayers = Some layers,
      m_fullTimeExtent = EmptyTimeExtent, m_intervalMS = 0, m_numberOfSteps = 0,
      m_stepTimes = [], m_startStep = 0, m_endStep = 0, emitted = [],
      setTimeExtentCalls = [], doneLoadingConnections = []\<rparr>"

text \<open>One layer covering five seconds, with no interval of its own, before and after a recomputation.\<close>

definition ex1_before :: TimeSliderController where
  "ex1_before = exController None [exLayer (TimeExtent (Some 0) (Some 5000)) EmptyTimeValue]"

definition ex1_after :: TimeSliderController where
  "ex1_after = ex1_before
     \<lparr>m_fullTimeExtent := TimeExtent (Some 0) (Some 5000), m_intervalMS := 1000,
      m_numberOfSteps := 6,
      m_stepTimes := [Some 0, Some 1000, Some 2000, Some 3000, Some 4000, Some 5000],
      m_startStep := 0, m_endStep := 5,
      emitted := [fullTimeExtentChanged, numberOfStepsChanged, startStepChanged, endStepChanged,
                  stepTimesChanged, currentTimeExtentChanged]\<rparr>"



text \<open>An extent in the years 2001 to 2033, and a layer list with a layer that failed to load.\<close>

definition ex3_extent :: TimeExtent where
  "ex3_extent = TimeExtent (Some 1000000000000) (Some 2000000000000)"

definition ex3_before :: TimeSliderController where
  "ex3_before = exController None [exLayer ex3_extent (TimeValue 1 Centuries), exFailedLayer]"

text \<open>A later layer list with a smaller extent, and the state after recomputing on it.\<close>

definition ex4_layers :: "Layer option list" where
  "ex4_layers = [exLayer (TimeExtent (Some 1000) (Some 2000)) EmptyTimeValue]"

definition ex4_after :: TimeSliderController where
  "ex4_after = ex1_after
     \<lparr>m_operationalLayers := Some ex4_layers,
      emitted := emitted ex1_after
        @ [startStepChanged, endStepChanged, stepTimesChanged, currentTimeExtentChanged]\<rparr>"

text \<open>A layer whose interval is one and a half milliseconds, under a map view.\<close>

definition ex5_before :: TimeSliderController where
  "ex5_before = exController (Some EmptyTimeExtent)
     [exLayer (TimeExtent (Some 0) (Some 3)) (TimeValue (3 / 2) Milliseconds)]"



text \<open>A controller with a view but an empty full extent.\<close>

definition ex9_state :: TimeSliderController where
  "ex9_state = exController (Some (TimeExtent (Some 0) (Some 1000))) []"


section \<open>Basic facts\<close>

subsection \<open>Truncation and the conversions\<close>

lemma floor_rat_numeral [simp]: "\<lfloor>numeral a / numeral b :: rat\<rfloor> = numeral a div numeral b"
  using floor_divide_of_int_eq [of "numeral a" "numeral b", where ?'a = rat] by simp

lemma floor_rat_neg_numeral [simp]:
  "\<lfloor>- (numeral a / numeral b) :: rat\<rfloor> = - numeral a div numeral b"
  using floor_divide_of_int_eq [of "- numeral a" "numeral b", where ?'a = rat] by simp

lemma floor_rat_one [simp]: "\<lfloor>1 / numeral b :: rat\<rfloor> = 1 div numeral b"
  using floor_divide_of_int_eq [of 1 "numeral b", where ?'a = rat] by simp

lemma floor_rat_neg_one [simp]: "\<lfloor>- (1 / numeral b) :: rat\<rfloor> = - 1 div numeral b"
  using floor_divide_of_int_eq [of "- 1" "numeral b", where ?'a = rat] by simp

lemma ceiling_rat_numeral [simp]:
  "\<lceil>numeral a / numeral b :: rat\<rceil> = - (- numeral a div numeral b)"
  by (simp add: ceiling_def)

lemma ceiling_rat_neg_numeral [simp]:
  "\<lceil>- (numeral a / numeral b) :: rat\<rceil> = - (numeral a div numeral b)"
  by (simp add: ceiling_def)

lemma ceiling_rat_one [simp]: "\<lceil>1 / numeral b :: rat\<rceil> = - (- 1 div numeral b)"
  by (simp add: ceiling_def)

lemma ceiling_rat_neg_one [simp]: "\<lceil>- (1 / numeral b) :: rat\<rceil> = - (1 div numeral b)"
  by (simp add: ceiling_def)

lemma trunc_nonneg: "0 \<le> x \<Longrightarrow> trunc x = \<lfloor>x\<rfloor>"
  by (simp add: trunc_def)


lemma trunc_of_int [simp]: "trunc (of_int k) = k"
  by (simp add: trunc_def)

lemma trunc_mono:
  assumes "x \<le> y"
  shows "trunc x \<le> trunc y"
proof (cases "0 \<le> x")
  case True
  with assms show ?thesis by (simp add: trunc_def floor_mono)
next
  case x: False
  show ?thesis
  proof (cases "0 \<le> y")
    case True
    have a: "\<lceil>x\<rceil> \<le> 0" using x by (simp add: ceiling_le_zero)
    have b: "0 \<le> \<lfloor>y\<rfloor>" using True by simp
    have "trunc x = \<lceil>x\<rceil>" using x by (simp add: trunc_def)
    moreover have "trunc y = \<lfloor>y\<rfloor>" using True by (simp add: trunc_def)
    ultimately show ?thesis using a b by linarith
  next
    case False
    with x assms show ?thesis by (simp add: trunc_def ceiling_mono)
  qed
qed

lemma toInt_Some: "toInt x = Some n \<Longrightarrow> n = trunc x"
  by (auto simp add: toInt_def split: if_splits)

lemma toInt64_Some: "toInt64 x = Some n \<Longrightarrow> n = trunc x"
  by (auto simp add: toInt64_def split: if_splits)

subsection \<open>Rounding to a double\<close>

lemma roundEven_bounds: "of_int (roundEven z) \<le> z + 1 / 2 \<and> z - 1 / 2 \<le> of_int (roundEven z)"
proof -
  have f: "of_int \<lfloor>z\<rfloor> \<le> z" "z < of_int \<lfloor>z\<rfloor> + 1" by linarith+
  show ?thesis
    unfolding roundEven_def Let_def using f by (simp split: if_splits) linarith
qed

lemma roundEven_of_int [simp]: "roundEven (of_int k) = k"
  by (simp add: roundEven_def)

lemma roundEven_mono:
  assumes "z \<le> w"
  shows "roundEven z \<le> roundEven w"
proof (cases "\<lfloor>z\<rfloor> = \<lfloor>w\<rfloor>")
  case True
  with assms show ?thesis by (auto simp add: roundEven_def Let_def)
next
  case False
  with assms have "\<lfloor>z\<rfloor> < \<lfloor>w\<rfloor>" using floor_mono [OF assms] by linarith
  then have "\<lfloor>z\<rfloor> + 1 \<le> \<lfloor>w\<rfloor>" by simp
  moreover have "roundEven z \<le> \<lfloor>z\<rfloor> + 1" by (simp add: roundEven_def Let_def)
  moreover have "\<lfloor>w\<rfloor> \<le> roundEven w" by (simp add: roundEven_def Let_def)
  ultimately show ?thesis by linarith
qed


lemma binade_ge_one:
  assumes "1 \<le> x"
  shows "2 powi binade x \<le> x \<and> x < 2 powi (binade x + 1)"
proof -
  define n where "n = nat \<lfloor>x\<rfloor>"
  define k where "k = floorlog 2 n - 1"
  have n: "0 < n" using assms by (simp add: n_def)
  have f1: "of_nat n \<le> x" using assms by (simp add: n_def)
  have f2: "x < of_nat (n + 1)" using assms by (simp add: n_def) linarith
  have pos: "0 < floorlog 2 n" using n floorlog_eq_zero_iff [of 2 n] by auto
  then have fk: "floorlog 2 n = Suc k" by (simp add: k_def)
  from floorlog_bounds [OF n, of 2] have
    b1: "2 ^ k \<le> n" and b2: "n < 2 ^ Suc k" by (simp_all add: fk)
  have e: "binade x = int k"
    using assms by (simp add: binade_def n_def [symmetric] fk)
  have "(of_nat (2 ^ k) :: rat) \<le> of_nat n" using b1 by (simp only: of_nat_le_iff)
  then have "(2::rat) ^ k \<le> of_nat n" by simp
  then have "(2::rat) ^ k \<le> x" using f1 by (rule order_trans)
  then have lo: "2 powi binade x \<le> x" by (simp add: e)
  have "n + 1 \<le> 2 ^ Suc k" using b2 by simp
  then have "(of_nat (n + 1) :: rat) \<le> of_nat (2 ^ Suc k)" by (simp only: of_nat_le_iff)
  then have "(of_nat (n + 1) :: rat) \<le> 2 ^ Suc k" by simp
  with f2 have "x < 2 ^ Suc k" by (rule less_le_trans)
  moreover have "binade x + 1 = int (Suc k)" by (simp add: e)
  ultimately have hi: "x < 2 powi (binade x + 1)" by (simp only: power_int_of_nat)
  from lo hi show ?thesis by simp
qed

lemma binade_lt_one:
  assumes "0 < x" and "x < 1"
  shows "2 powi binade x \<le> x \<and> x < 2 powi (binade x + 1)"
proof -
  define y where "y = 1 / x"
  define c where "c = \<lceil>y\<rceil>"
  define n where "n = nat (c - 1)"
  define k where "k = floorlog 2 n - 1"
  have y: "1 < y" using assms by (simp add: y_def)
  have c2: "2 \<le> c" using y unfolding c_def by linarith
  have n: "0 < n" using c2 by (simp add: n_def)
  have cn: "c = int n + 1" using c2 by (simp add: n_def)
  have "int n < \<lceil>y\<rceil>" using cn by (simp add: c_def)
  then have "of_int (int n) < y" by (simp only: less_ceiling_iff)
  then have y1: "of_nat n < y" by simp
  have y2: "y \<le> of_nat (n + 1)"
    using cn c_def by (metis le_of_int_ceiling of_int_of_nat_eq of_nat_1 of_nat_add)
  have pos: "0 < floorlog 2 n" using n floorlog_eq_zero_iff [of 2 n] by auto
  then have fk: "floorlog 2 n = Suc k" by (simp add: k_def)
  from floorlog_bounds [OF n, of 2] have
    b1: "2 ^ k \<le> n" and b2: "n < 2 ^ Suc k" by (simp_all add: fk)
  have e: "binade x = - int (Suc k)"
    using assms by (simp add: binade_def y_def [symmetric] c_def [symmetric] n_def [symmetric] fk)
  have "(of_nat (2 ^ k) :: rat) \<le> of_nat n" using b1 by (simp only: of_nat_le_iff)
  then have "(2::rat) ^ k \<le> of_nat n" by simp
  then have lt: "(2::rat) ^ k < y" using y1 by (rule le_less_trans)
  have "n + 1 \<le> 2 ^ Suc k" using b2 by simp
  then have "(of_nat (n + 1) :: rat) \<le> of_nat (2 ^ Suc k)" by (simp only: of_nat_le_iff)
  then have "(of_nat (n + 1) :: rat) \<le> 2 ^ Suc k" by simp
  with y2 have le: "y \<le> 2 ^ Suc k" by (rule order_trans)
  have xy: "x = 1 / y" using assms by (simp add: y_def)
  have p1: "(2::rat) powi binade x = 1 / 2 ^ Suc k"
    unfolding e by (simp only: power_int_minus_divide power_int_of_nat)
  have "binade x + 1 = - int k" by (simp add: e)
  then have p2: "(2::rat) powi (binade x + 1) = 1 / 2 ^ k"
    by (simp only: power_int_minus_divide power_int_of_nat)
  have "1 / (2 ^ Suc k) \<le> 1 / y" using le y by (intro divide_left_mono) simp_all
  then have "1 / (2 ^ Suc k) \<le> x" by (simp only: xy [symmetric])
  then have lo: "2 powi binade x \<le> x" by (simp only: p1)
  have "1 / y < 1 / (2 ^ k)" using lt y by (intro divide_strict_left_mono) simp_all
  then have "x < 1 / (2 ^ k)" by (simp only: xy [symmetric])
  then have hi: "x < 2 powi (binade x + 1)" by (simp only: p2)
  from lo hi show ?thesis by simp
qed

lemma binade_bounds:
  "0 < x \<Longrightarrow> 2 powi binade x \<le> x \<and> x < 2 powi (binade x + 1)"
  using binade_ge_one [of x] binade_lt_one [of x] by (cases "1 \<le> x") auto

lemma roundToDouble_zero [simp]: "roundToDouble 0 = 0"
  by (simp add: roundToDouble_def)

lemma roundToDouble_pos:
  "0 < x \<Longrightarrow> roundToDouble x =
     of_int (roundEven (x / 2 powi (binade x - 52))) * 2 powi (binade x - 52)"
  by (simp add: roundToDouble_def Let_def)

lemma roundToDouble_minus: "roundToDouble (- x) = - roundToDouble x"
  by (simp add: roundToDouble_def Let_def)

lemma ulp_scale:
  fixes e :: int
  defines "u \<equiv> (2::rat) powi (e - 52)"
  shows "2 powi e = of_int (2 ^ 52) * u" and "2 powi (e + 1) = of_int (2 ^ 53) * u"
proof -
  have "(2::rat) powi (52 + (e - 52)) = 2 powi 52 * 2 powi (e - 52)"
    by (rule power_int_add) simp
  then show "2 powi e = of_int (2 ^ 52) * u" by (simp add: u_def)
  have "(2::rat) powi (53 + (e - 52)) = 2 powi 53 * 2 powi (e - 52)"
    by (rule power_int_add) simp
  moreover have "53 + (e - 52) = e + 1" by simp
  ultimately show "2 powi (e + 1) = of_int (2 ^ 53) * u" by (simp add: u_def)
qed

lemma roundToDouble_range:
  assumes "0 < x"
  shows "2 powi binade x \<le> roundToDouble x \<and> roundToDouble x \<le> 2 powi (binade x + 1)"
proof -
  define e where "e = binade x"
  define u :: rat where "u = 2 powi (e - 52)"
  define r where "r = roundEven (x / u)"
  have u: "0 < u" by (simp add: u_def)
  note s = ulp_scale [of e, folded u_def]
  from binade_bounds [OF assms] have b: "2 powi e \<le> x" "x < 2 powi (e + 1)" by (simp_all add: e_def)
  have "of_int (2 ^ 52) * u \<le> x" using b(1) by (simp only: s)
  then have "of_int (2 ^ 52) \<le> x / u" using u by (simp only: pos_le_divide_eq)
  then have "roundEven (of_int (2 ^ 52)) \<le> r" unfolding r_def by (rule roundEven_mono)
  then have lo: "2 ^ 52 \<le> r" by (simp only: roundEven_of_int)
  have "x \<le> of_int (2 ^ 53) * u" using b(2) by (simp only: s)
  then have "x / u \<le> of_int (2 ^ 53)" using u by (simp only: pos_divide_le_eq)
  then have "r \<le> roundEven (of_int (2 ^ 53))" unfolding r_def by (rule roundEven_mono)
  then have hi: "r \<le> 2 ^ 53" by (simp only: roundEven_of_int)
  have rd: "roundToDouble x = of_int r * u"
    using assms by (simp add: roundToDouble_pos u_def e_def r_def)
  have "(of_int (2 ^ 52) :: rat) \<le> of_int r" using lo by (simp only: of_int_le_iff)
  then have "of_int (2 ^ 52) * u \<le> of_int r * u" using u by (rule mult_right_mono [OF _ less_imp_le])
  then have l: "2 powi e \<le> roundToDouble x" by (simp only: s rd)
  have "(of_int r :: rat) \<le> of_int (2 ^ 53)" using hi by (simp only: of_int_le_iff)
  then have "of_int r * u \<le> of_int (2 ^ 53) * u" using u by (rule mult_right_mono [OF _ less_imp_le])
  then have h: "roundToDouble x \<le> 2 powi (e + 1)" by (simp only: s rd)
  from l h show ?thesis by (simp only: e_def)
qed

lemma roundToDouble_pos_pos:
  assumes "0 < x"
  shows "0 < roundToDouble x"
proof -
  have "(0::rat) < 2 powi binade x" by simp
  with roundToDouble_range [OF assms] show ?thesis by linarith
qed

lemma binade_mono:
  assumes "0 < x" and "x \<le> y"
  shows "binade x \<le> binade y"
proof (rule ccontr)
  assume "\<not> binade x \<le> binade y"
  then have "binade y + 1 \<le> binade x" by simp
  then have "(2::rat) powi (binade y + 1) \<le> 2 powi binade x"
    by (rule power_int_increasing) simp
  moreover have y: "0 < y" using assms by simp
  ultimately show False
    using binade_bounds [OF assms(1)] binade_bounds [OF y] assms(2) by linarith
qed

lemma roundToDouble_mono_pos:
  assumes "0 < x" and "x \<le> y"
  shows "roundToDouble x \<le> roundToDouble y"
proof -
  have y: "0 < y" using assms by simp
  have le: "binade x \<le> binade y" using assms by (rule binade_mono)
  show ?thesis
  proof (cases "binade x = binade y")
    case True
    define u :: rat where "u = 2 powi (binade x - 52)"
    have u: "0 < u" by (simp add: u_def)
    have "x / u \<le> y / u" using assms(2) u by (simp add: divide_right_mono)
    then have "roundEven (x / u) \<le> roundEven (y / u)" by (rule roundEven_mono)
    then have "(of_int (roundEven (x / u)) :: rat) \<le> of_int (roundEven (y / u))"
      by (simp only: of_int_le_iff)
    then have "of_int (roundEven (x / u)) * u \<le> of_int (roundEven (y / u)) * u"
      using u by (rule mult_right_mono [OF _ less_imp_le])
    then show ?thesis
      by (simp only: roundToDouble_pos [OF assms(1)] roundToDouble_pos [OF y] True [symmetric] u_def)
  next
    case False
    with le have "binade x + 1 \<le> binade y" by simp
    then have "(2::rat) powi (binade x + 1) \<le> 2 powi binade y"
      by (rule power_int_increasing) simp
    with roundToDouble_range [OF assms(1)] roundToDouble_range [OF y] show ?thesis by linarith
  qed
qed

lemma roundToDouble_mono:
  assumes "x \<le> y"
  shows "roundToDouble x \<le> roundToDouble y"
proof -
  consider "0 < x" | "x = 0" | "x < 0" "0 \<le> y" | "x < 0" "y < 0" by linarith
  then show ?thesis
  proof cases
    case 1
    then show ?thesis using assms by (rule roundToDouble_mono_pos)
  next
    case 2
    show ?thesis
    proof (cases "y = 0")
      case True
      with 2 show ?thesis by simp
    next
      case False
      with 2 assms have "0 < y" by simp
      then have "0 < roundToDouble y" by (rule roundToDouble_pos_pos)
      with 2 show ?thesis by simp
    qed
  next
    case 3
    have "0 < roundToDouble (- x)" using 3(1) by (intro roundToDouble_pos_pos) simp
    then have a: "roundToDouble x < 0" using roundToDouble_minus [of x] by simp
    have "0 \<le> roundToDouble y"
    proof (cases "y = 0")
      case True
      then show ?thesis by simp
    next
      case False
      with 3(2) have "0 < y" by simp
      then show ?thesis using roundToDouble_pos_pos [of y] by simp
    qed
    with a show ?thesis by simp
  next
    case 4
    have "roundToDouble (- y) \<le> roundToDouble (- x)"
      using 4 assms by (intro roundToDouble_mono_pos) simp_all
    then show ?thesis by (simp add: roundToDouble_minus)
  qed
qed

lemma roundToDouble_upper:
  assumes "0 < x"
  shows "roundToDouble x \<le> x * (1 + 1 / 2 ^ 53)"
proof -
  define e where "e = binade x"
  define u :: rat where "u = 2 powi (e - 52)"
  define r where "r = roundEven (x / u)"
  have u: "0 < u" by (simp add: u_def)
  note s = ulp_scale [of e, folded u_def]
  have b: "2 powi e \<le> x" using binade_bounds [OF assms] by (simp add: e_def)
  have rd: "roundToDouble x = of_int r * u"
    using assms by (simp add: roundToDouble_pos u_def e_def r_def)
  have "of_int r \<le> x / u + 1 / 2" unfolding r_def using roundEven_bounds [of "x / u"] by simp
  then have "of_int r * u \<le> (x / u + 1 / 2) * u" using u by (rule mult_right_mono [OF _ less_imp_le])
  also have "\<dots> = x + u / 2" using u by (simp add: field_simps)
  finally have 1: "roundToDouble x \<le> x + u / 2" by (simp only: rd)
  have "of_int (2 ^ 52) * u \<le> x" using b by (simp only: s(1))
  then have "u / 2 \<le> x / 2 ^ 53" by simp
  with 1 have "roundToDouble x \<le> x + x / 2 ^ 53" by linarith
  also have "\<dots> = x * (1 + 1 / 2 ^ 53)" by (simp add: field_simps)
  finally show ?thesis .
qed

lemma roundToDouble_of_int:
  assumes "0 \<le> k" and "k \<le> 2 ^ 53"
  shows "roundToDouble (of_int k) = of_int k"
proof (cases "k = 0")
  case True
  then show ?thesis by simp
next
  case False
  with assms have k: "0 < k" by simp
  define x :: rat where "x = of_int k"
  define e where "e = binade x"
  define u :: rat where "u = 2 powi (e - 52)"
  have x: "0 < x" using k by (simp add: x_def)
  have u: "0 < u" by (simp add: u_def)
  have b: "2 powi e \<le> x" using binade_bounds [OF x] by (simp add: e_def)
  have rd: "roundToDouble x = of_int (roundEven (x / u)) * u"
    using x by (simp add: roundToDouble_pos u_def e_def)
  have "\<exists>j. x / u = of_int j"
  proof (cases "e \<le> 52")
    case True
    define n where "n = nat (52 - e)"
    have "e - 52 = - int n" using True by (simp add: n_def)
    then have "u = 1 / 2 ^ n" unfolding u_def by (simp only: power_int_minus_divide power_int_of_nat)
    then have "x / u = of_int (k * 2 ^ n)" by (simp add: x_def)
    then show ?thesis by blast
  next
    case False
    have "(of_int k :: rat) \<le> of_int (2 ^ 53)" using assms(2) by (simp only: of_int_le_iff)
    then have "x \<le> 2 powi 53" by (simp add: x_def)
    with b have "(2::rat) powi e \<le> 2 powi 53" by (rule order_trans)
    then have "e \<le> 53" by (rule power_int_le_imp_le_exp [rotated]) simp_all
    with False have e: "e = 53" by simp
    then have "(2::rat) powi 53 \<le> x" using b by simp
    with \<open>x \<le> 2 powi 53\<close> have "x = 2 ^ 53" by simp
    moreover have "u = 2" by (simp add: u_def e)
    ultimately have "x / u = of_int (2 ^ 52)" by simp
    then show ?thesis by blast
  qed
  then obtain j where j: "x / u = of_int j" by blast
  have "roundToDouble x = of_int j * u" by (simp only: rd j roundEven_of_int)
  also have "\<dots> = x" using j u by (simp add: field_simps)
  finally show ?thesis by (simp add: x_def)
qed

subsection \<open>The step count\<close>

lemma roundToDouble_upper_nonneg:
  "0 \<le> x \<Longrightarrow> roundToDouble x \<le> x * (1 + 1 / 2 ^ 53)"
  using roundToDouble_upper [of x] by (cases "x = 0") simp_all

lemma stepCount_in_range:
  assumes "I \<noteq> 0"
    and "v = roundToDouble (roundToDouble (roundToDouble (of_int R) / I) + 1)"
    and "- (2 ^ 31) \<le> trunc v" and "trunc v < 2 ^ 31"
  shows "stepCount R I = trunc v"
  using assms by (simp add: stepCount_def Let_def)

lemma stepCount_sum_bounds:
  assumes "0 \<le> R" and "R \<le> 2 ^ 53" and "0 < I" and "a = \<lfloor>of_int R / I\<rfloor>"
    and "a + 2 \<le> 2 ^ 53"
    and "v = roundToDouble (roundToDouble (roundToDouble (of_int R) / I) + 1)"
  shows "0 \<le> a" and "of_int (a + 1) \<le> v" and "v \<le> of_int (a + 2)"
    and "0 \<le> roundToDouble (of_int R / I)"
    and "v = roundToDouble (roundToDouble (of_int R / I) + 1)"
proof -
  define x where "x = of_int R / I"
  define q where "q = roundToDouble x"
  have x0: "0 \<le> x" using assms(1,3) by (simp add: x_def)
  then show a0: "0 \<le> a" by (simp add: assms(4) x_def [symmetric])
  have xa: "of_int a \<le> x" "x \<le> of_int (a + 1)"
    unfolding assms(4) x_def [symmetric] by linarith+
  have rR: "roundToDouble (of_int R) = of_int R"
    using assms(1,2) by (rule roundToDouble_of_int)
  have v: "v = roundToDouble (q + 1)" by (simp add: assms(6) rR q_def x_def)
  then show "v = roundToDouble (roundToDouble (of_int R / I) + 1)" by (simp add: q_def x_def)
  have "roundToDouble (of_int a) \<le> q" unfolding q_def using xa(1) by (rule roundToDouble_mono)
  moreover have "roundToDouble (of_int a) = of_int a"
    using a0 assms(5) by (intro roundToDouble_of_int) simp_all
  ultimately have q1: "of_int a \<le> q" by simp
  then show "0 \<le> roundToDouble (of_int R / I)" using a0 by (simp add: q_def x_def)
  have "q \<le> roundToDouble (of_int (a + 1))" unfolding q_def using xa(2) by (rule roundToDouble_mono)
  moreover have "roundToDouble (of_int (a + 1)) = of_int (a + 1)"
    using a0 assms(5) by (intro roundToDouble_of_int) simp_all
  ultimately have q2: "q \<le> of_int (a + 1)" by simp
  have "of_int (a + 1) \<le> q + 1" using q1 by simp
  then have "roundToDouble (of_int (a + 1)) \<le> v" unfolding v by (rule roundToDouble_mono)
  moreover have "roundToDouble (of_int (a + 1)) = of_int (a + 1)"
    using a0 assms(5) by (intro roundToDouble_of_int) simp_all
  ultimately show "of_int (a + 1) \<le> v" by simp
  have "q + 1 \<le> of_int (a + 2)" using q2 by simp
  then have "v \<le> roundToDouble (of_int (a + 2))" unfolding v by (rule roundToDouble_mono)
  moreover have "roundToDouble (of_int (a + 2)) = of_int (a + 2)"
    using a0 assms(5) by (intro roundToDouble_of_int) simp_all
  ultimately show "v \<le> of_int (a + 2)" by simp
qed

lemma stepCount_bounds:
  assumes "0 \<le> R" and "R \<le> 2 ^ 53" and "0 < I" and "a = \<lfloor>of_int R / I\<rfloor>"
    and "a + 2 < 2 ^ 31"
  shows "a + 1 \<le> stepCount R I \<and> stepCount R I \<le> a + 2"
proof -
  define v where "v = roundToDouble (roundToDouble (roundToDouble (of_int R) / I) + 1)"
  have big: "a + 2 \<le> 2 ^ 53" using assms(5) by simp
  note b = stepCount_sum_bounds [OF assms(1,2,3,4) big v_def]
  have "trunc (of_int (a + 1)) \<le> trunc v" using b(2) by (rule trunc_mono)
  then have lo: "a + 1 \<le> trunc v" by (simp only: trunc_of_int)
  have "trunc v \<le> trunc (of_int (a + 2))" using b(3) by (rule trunc_mono)
  then have hi: "trunc v \<le> a + 2" by (simp only: trunc_of_int)
  have "stepCount R I = trunc v"
    using assms(3,5) b(1) lo hi by (intro stepCount_in_range [OF _ v_def]) simp_all
  with lo hi show ?thesis by simp
qed

lemma stepCount_whole:
  assumes "0 \<le> R" and "R \<le> 2 ^ 50" and "0 < m" and "m \<le> 2 ^ 50"
    and "a = \<lfloor>of_int R / of_int m :: rat\<rfloor>" and "a + 1 < 2 ^ 31"
  shows "stepCount R (of_int m) = a + 1"
proof -
  define I :: rat where "I = of_int m"
  define x where "x = of_int R / I"
  define q where "q = roundToDouble x"
  define v where "v = roundToDouble (roundToDouble (roundToDouble (of_int R) / I) + 1)"
  define u :: rat where "u = 1 / 2 ^ 53"
  have I: "0 < I" using assms(3) by (simp add: I_def)
  have R53: "R \<le> 2 ^ 53" using assms(2) by simp
  have a: "a = \<lfloor>of_int R / I\<rfloor>" by (simp add: assms(5) I_def)
  have big: "a + 2 \<le> 2 ^ 53" using assms(6) by simp
  note b = stepCount_sum_bounds [OF assms(1) R53 I a big v_def]
  have v: "v = roundToDouble (q + 1)" using b(5) by (simp add: q_def x_def)
  have q0: "0 \<le> q" using b(4) by (simp add: q_def x_def)
  have x0: "0 \<le> x" using assms(1) I by (simp add: x_def)
  define c :: rat where "c = 2 ^ 50"
  have u: "0 < u" "c * (3 * u + u * u) < 1" by (simp_all add: u_def c_def)
  have adiv: "a = R div m" unfolding assms(5) by (rule floor_divide_of_int_eq)
  have "R mod m \<le> m - 1" using assms(3) pos_mod_bound [of m R] by simp
  then have "R \<le> a * m + (m - 1)" unfolding adiv using div_mult_mod_eq [of R m] by linarith
  then have "(of_int R :: rat) \<le> of_int (a * m + (m - 1))" by (simp only: of_int_le_iff)
  then have "of_int R \<le> of_int a * I + I - 1" by (simp add: I_def)
  moreover have "(of_int a + 1 - 1 / I) * I = of_int a * I + I - 1"
    using I by (simp add: algebra_simps)
  ultimately have "of_int R \<le> (of_int a + 1 - 1 / I) * I" by simp
  then have xa: "x \<le> of_int a + 1 - 1 / I" unfolding x_def using I by (simp only: pos_divide_le_eq)
  have xR: "x \<le> c / I"
  proof -
    have "(of_int R :: rat) \<le> of_int (2 ^ 50)" using assms(2) by (simp only: of_int_le_iff)
    then show ?thesis unfolding x_def using I by (simp add: divide_right_mono c_def)
  qed
  have one: "1 \<le> c / I"
  proof -
    have "(of_int m :: rat) \<le> of_int (2 ^ 50)" using assms(4) by (simp only: of_int_le_iff)
    then show ?thesis using I by (simp add: I_def c_def)
  qed
  have "x * (2 * u + u * u) + u \<le> c / I * (2 * u + u * u) + c / I * u"
  proof (rule add_mono)
    show "x * (2 * u + u * u) \<le> c / I * (2 * u + u * u)"
      using xR u(1) by (intro mult_right_mono) simp_all
    show "u \<le> c / I * u" using one u(1) by (simp only: mult_le_cancel_right1) simp
  qed
  also have "\<dots> = (c * (3 * u + u * u)) / I" by (simp add: algebra_simps add_divide_distrib)
  also have "\<dots> < 1 / I" using u(2) I by (simp only: divide_strict_right_mono)
  finally have err: "x * (2 * u + u * u) + u < 1 / I" .
  have "q \<le> x * (1 + u)" unfolding q_def u_def using x0 by (rule roundToDouble_upper_nonneg)
  then have y: "q + 1 \<le> x * (1 + u) + 1" by simp
  have "v \<le> (q + 1) * (1 + u)" unfolding v u_def using q0 by (intro roundToDouble_upper_nonneg) simp
  also have "\<dots> \<le> (x * (1 + u) + 1) * (1 + u)" using y u(1) by (intro mult_right_mono) simp_all
  also have "\<dots> = x + 1 + (x * (2 * u + u * u) + u)" by (simp add: algebra_simps)
  also have "\<dots> < x + 1 + 1 / I" using err by simp
  also have "\<dots> \<le> of_int (a + 2)" using xa by simp
  finally have hi: "v < of_int (a + 2)" .
  have v0: "0 \<le> v" using b(1,2) by (meson add_nonneg_nonneg of_int_nonneg order_trans zero_le_one)
  have "\<lfloor>v\<rfloor> = a + 1" using b(2) hi by (intro floor_unique) simp_all
  then have t: "trunc v = a + 1" using v0 by (simp add: trunc_nonneg)
  have "stepCount R I = trunc v"
    using I assms(6) b(1) by (intro stepCount_in_range [OF _ v_def]) (simp_all add: t)
  then show ?thesis by (simp add: t I_def)
qed

lemma stepCount_neg_interval:
  assumes "0 \<le> R" and "I < 0"
  shows "stepCount R I \<le> 1"
proof -
  define v where "v = roundToDouble (roundToDouble (roundToDouble (of_int R) / I) + 1)"
  have "roundToDouble 0 \<le> roundToDouble (of_int R)"
    using assms(1) by (intro roundToDouble_mono) simp
  then have "roundToDouble (of_int R) / I \<le> 0"
    using assms(2) by (simp add: divide_nonneg_neg)
  then have "roundToDouble (roundToDouble (of_int R) / I) \<le> roundToDouble 0"
    by (rule roundToDouble_mono)
  then have "roundToDouble (roundToDouble (of_int R) / I) + 1 \<le> of_int 1" by simp
  then have "v \<le> roundToDouble (of_int 1)" unfolding v_def by (rule roundToDouble_mono)
  moreover have "roundToDouble (of_int 1) = of_int 1" by (rule roundToDouble_of_int) simp_all
  ultimately have "v \<le> of_int 1" by simp
  then have "trunc v \<le> trunc (of_int 1)" by (rule trunc_mono)
  then have "trunc v \<le> 1" by (simp only: trunc_of_int)
  then show ?thesis by (simp add: stepCount_def Let_def v_def [symmetric])
qed



lemma stepCount_exact:
  assumes "0 \<le> R" and "R \<le> 2 ^ 53" and "I \<noteq> 0" and "of_int R / I = of_int k"
    and "0 \<le> k" and "k + 1 \<le> 2 ^ 53"
  shows "stepCount R I = (if k + 1 < 2 ^ 31 then k + 1 else - (2 ^ 31))"
proof -
  have rR: "roundToDouble (of_int R) = of_int R" using assms(1,2) by (rule roundToDouble_of_int)
  have rk: "roundToDouble (of_int k) = of_int k"
    using assms(5,6) by (intro roundToDouble_of_int) simp_all
  have "roundToDouble (of_int k + 1) = roundToDouble (of_int (k + 1))" by simp
  also have "\<dots> = of_int (k + 1)" using assms(5,6) by (intro roundToDouble_of_int) simp_all
  finally have v: "roundToDouble (roundToDouble (roundToDouble (of_int R) / I) + 1) = of_int (k + 1)"
    by (simp only: rR assms(4) rk)
  show ?thesis
    using assms(3,5) unfolding stepCount_def Let_def v trunc_of_int by simp
qed

lemma stepCount_examples:
  "stepCount 5000 1000 = 6"
  "stepCount 3 (3 / 2) = 3"
  "stepCount 864000000 604800000 = 2"
  "stepCount 2000000000000 3153600000000 = 1"
  "stepCount 2207520000000 1000 = - 2147483648"
proof -
  show "stepCount 5000 1000 = 6" using stepCount_exact [of 5000 1000 5] by simp
  show "stepCount 3 (3 / 2) = 3" using stepCount_exact [of 3 "3 / 2" 2] by simp
  show "stepCount 864000000 604800000 = 2"
    using stepCount_whole [of 864000000 604800000 1] by simp
  show "stepCount 2000000000000 3153600000000 = 1"
    using stepCount_whole [of 2000000000000 3153600000000 0] by simp
  show "stepCount 2207520000000 1000 = - 2147483648"
    using stepCount_exact [of 2207520000000 1000 2207520000] by simp
qed


subsection \<open>What each operation leaves unchanged\<close>

lemma emit_fields [simp]:
  "m_mapView (emit sig s) = m_mapView s"
  "m_sceneView (emit sig s) = m_sceneView s"
  "m_operationalLayers (emit sig s) = m_operationalLayers s"
  "m_fullTimeExtent (emit sig s) = m_fullTimeExtent s"
  "m_intervalMS (emit sig s) = m_intervalMS s"
  "m_numberOfSteps (emit sig s) = m_numberOfSteps s"
  "m_stepTimes (emit sig s) = m_stepTimes s"
  "m_startStep (emit sig s) = m_startStep s"
  "m_endStep (emit sig s) = m_endStep s"
  "emitted (emit sig s) = emitted s @ [sig]"
  "setTimeExtentCalls (emit sig s) = setTimeExtentCalls s"
  "doneLoadingConnections (emit sig s) = doneLoadingConnections s"
  by (simp_all add: emit_def)

lemma setNumberOfSteps_fields [simp]:
  "m_mapView (setNumberOfSteps n s) = m_mapView s"
  "m_sceneView (setNumberOfSteps n s) = m_sceneView s"
  "m_operationalLayers (setNumberOfSteps n s) = m_operationalLayers s"
  "m_fullTimeExtent (setNumberOfSteps n s) = m_fullTimeExtent s"
  "m_intervalMS (setNumberOfSteps n s) = m_intervalMS s"
  "m_numberOfSteps (setNumberOfSteps n s) = n"
  "m_stepTimes (setNumberOfSteps n s) = m_stepTimes s"
  "m_startStep (setNumberOfSteps n s) = m_startStep s"
  "m_endStep (setNumberOfSteps n s) = m_endStep s"
  "setTimeExtentCalls (setNumberOfSteps n s) = setTimeExtentCalls s"
  by (simp_all add: setNumberOfSteps_def)

lemma setNumberOfSteps_emitted:
  "emitted (setNumberOfSteps n s) =
     emitted s @ (if n = m_numberOfSteps s then [] else [numberOfStepsChanged])"
  by (simp add: setNumberOfSteps_def)

lemma setFullTimeExtent_fields [simp]:
  "m_mapView (setFullTimeExtent e s) = m_mapView s"
  "m_sceneView (setFullTimeExtent e s) = m_sceneView s"
  "m_operationalLayers (setFullTimeExtent e s) = m_operationalLayers s"
  "m_intervalMS (setFullTimeExtent e s) = m_intervalMS s"
  "m_numberOfSteps (setFullTimeExtent e s) = m_numberOfSteps s"
  "m_stepTimes (setFullTimeExtent e s) = m_stepTimes s"
  "m_startStep (setFullTimeExtent e s) = m_startStep s"
  "m_endStep (setFullTimeExtent e s) = m_endStep s"
  "setTimeExtentCalls (setFullTimeExtent e s) = setTimeExtentCalls s"
  by (simp_all add: setFullTimeExtent_def)

lemma setFullTimeExtent_emitted:
  "emitted (setFullTimeExtent e s) =
     emitted s @ (if extent_eq e (m_fullTimeExtent s) then [] else [fullTimeExtentChanged])"
  by (simp add: setFullTimeExtent_def)

lemma setFullTimeExtent_full:
  "m_fullTimeExtent (setFullTimeExtent e s) = (if extent_eq e (m_fullTimeExtent s) then m_fullTimeExtent s else e)"
  by (simp add: setFullTimeExtent_def)

lemma calculateStepPositions_fields:
  assumes "calculateStepPositions s = Some s'"
  shows "m_mapView s' = m_mapView s" "m_sceneView s' = m_sceneView s"
    "m_operationalLayers s' = m_operationalLayers s"
    "m_fullTimeExtent s' = m_fullTimeExtent s" "m_intervalMS s' = m_intervalMS s"
    "m_numberOfSteps s' = m_numberOfSteps s" "m_stepTimes s' = m_stepTimes s"
    "setTimeExtentCalls s' = setTimeExtentCalls s"
  using assms
  by (auto simp add: calculateStepPositions_def Let_def split: if_splits option.splits)

lemma calculateStepPositions_emitted:
  assumes "calculateStepPositions s = Some s'"
  shows "emitted s' = emitted s @
     (if isEmpty (m_fullTimeExtent s) then [] else [startStepChanged, endStepChanged])"
  using assms
  by (auto simp add: calculateStepPositions_def Let_def split: if_splits option.splits)

lemma calculateStepPositions_steps:
  assumes "calculateStepPositions s = Some s'" and "\<not> isEmpty (m_fullTimeExtent s)"
  shows "stepOf (toMSecsSinceEpoch (currentExtentStart s)) (toMSecsSinceEpoch (fullExtentStart s))
           (m_intervalMS s) = Some (m_startStep s')"
    and "stepOf (toMSecsSinceEpoch (currentExtentEnd s)) (toMSecsSinceEpoch (fullExtentStart s))
           (m_intervalMS s) = Some (m_endStep s')"
  using assms
  by (auto simp add: calculateStepPositions_def Let_def split: if_splits option.splits)

lemma setStepTimes_fields:
  assumes "setStepTimes s = Some s'"
  shows "m_mapView s' = m_mapView s" "m_sceneView s' = m_sceneView s"
    "m_operationalLayers s' = m_operationalLayers s"
    "m_fullTimeExtent s' = m_fullTimeExtent s" "m_intervalMS s' = m_intervalMS s"
    "m_numberOfSteps s' = m_numberOfSteps s" "m_startStep s' = m_startStep s"
    "m_endStep s' = m_endStep s" "setTimeExtentCalls s' = setTimeExtentCalls s"
    "emitted s' = emitted s @ [stepTimesChanged]"
    "stepTimesLoop 0 (m_numberOfSteps s) (startTime (m_fullTimeExtent s)) (m_intervalMS s) []
       = Some (m_stepTimes s')"
  using assms
  by (auto simp add: setStepTimes_def split: option.splits)

lemma deriveSteps_facts:
  assumes "deriveSteps tv s = Some s'"
  shows "m_fullTimeExtent s' = m_fullTimeExtent s"
    and "m_mapView s' = m_mapView s" and "m_sceneView s' = m_sceneView s"
    and "m_intervalMS s' = toMilliseconds (resolveInterval tv (endMs (m_fullTimeExtent s) - startMs (m_fullTimeExtent s)))"
    and "m_numberOfSteps s' =
           stepCount (endMs (m_fullTimeExtent s) - startMs (m_fullTimeExtent s)) (m_intervalMS s')"
    and "stepTimesLoop 0 (m_numberOfSteps s') (startTime (m_fullTimeExtent s)) (m_intervalMS s') []
           = Some (m_stepTimes s')"
    and "emitted s' = emitted s
           @ (if m_numberOfSteps s' = m_numberOfSteps s then [] else [numberOfStepsChanged])
           @ (if isEmpty (m_fullTimeExtent s) then [] else [startStepChanged, endStepChanged])
           @ [stepTimesChanged, currentTimeExtentChanged]"
proof -
  define R where "R = endMs (m_fullTimeExtent s) - startMs (m_fullTimeExtent s)"
  define s1 where "s1 = s\<lparr>m_intervalMS := toMilliseconds (resolveInterval tv R)\<rparr>"
  define n where "n = stepCount R (m_intervalMS s1)"
  from assms obtain s2 s3 where
    s2: "calculateStepPositions (setNumberOfSteps n s1) = Some s2"
    and s3: "setStepTimes s2 = Some s3"
    and s': "s' = emit currentTimeExtentChanged s3"
    by (auto simp add: deriveSteps_def Let_def R_def s1_def n_def startMs_def endMs_def
        split: option.splits)
  note c = calculateStepPositions_fields [OF s2] calculateStepPositions_emitted [OF s2]
  note t = setStepTimes_fields [OF s3]
  show "m_fullTimeExtent s' = m_fullTimeExtent s"
    by (simp add: s' t c s1_def)
  show "m_mapView s' = m_mapView s" by (simp add: s' t c s1_def)
  show "m_sceneView s' = m_sceneView s" by (simp add: s' t c s1_def)
  have I: "m_intervalMS s' = m_intervalMS s1" by (simp add: s' t c)
  then show "m_intervalMS s' = toMilliseconds (resolveInterval tv (endMs (m_fullTimeExtent s) - startMs (m_fullTimeExtent s)))"
    by (simp add: s1_def R_def)
  have N: "m_numberOfSteps s' = n" by (simp add: s' t c)
  show "m_numberOfSteps s' =
           stepCount (endMs (m_fullTimeExtent s) - startMs (m_fullTimeExtent s)) (m_intervalMS s')"
    by (simp add: I N n_def R_def)
  show "stepTimesLoop 0 (m_numberOfSteps s') (startTime (m_fullTimeExtent s)) (m_intervalMS s') []
           = Some (m_stepTimes s')"
    using t(11) by (simp add: s' c t I N s1_def)
  show "emitted s' = emitted s
           @ (if m_numberOfSteps s' = m_numberOfSteps s then [] else [numberOfStepsChanged])
           @ (if isEmpty (m_fullTimeExtent s) then [] else [startStepChanged, endStepChanged])
           @ [stepTimesChanged, currentTimeExtentChanged]"
    by (simp add: s' t c N setNumberOfSteps_emitted s1_def)
qed

subsection \<open>Extents and their union\<close>

lemma extent_eq_ms:
  "extent_eq a b = (startMs a = startMs b \<and> endMs a = endMs b)"
  by (simp add: extent_eq_def dt_eq_def startMs_def endMs_def)

lemma isEmpty_ms: "isEmpty e \<Longrightarrow> startMs e = 0 \<and> endMs e = 0"
  by (cases e) (simp_all add: startMs_def endMs_def toMSecsSinceEpoch_def)

lemma unionTimeExtent_ms:
  assumes "\<not> isEmpty f"
  shows "\<not> isEmpty (unionTimeExtent e f)"
    and "startMs (unionTimeExtent e f) = min (startMs e) (startMs f)"
    and "endMs (unionTimeExtent e f) = max (endMs e) (endMs f)"
  using assms
  by (auto simp add: unionTimeExtent_def startMs_def endMs_def dt_less_def dt_greater_def)

lemma unionTimeExtent_empty_right: "unionTimeExtent e EmptyTimeExtent = e"
  by (simp add: unionTimeExtent_def)

lemma unionTimeExtent_min_max:
  "unionTimeExtent (TimeExtent (Some a) (Some b)) (TimeExtent (Some c) (Some d))
   = TimeExtent (Some (min a c)) (Some (max b d))"
  by (auto simp add: unionTimeExtent_def dt_less_def dt_greater_def toMSecsSinceEpoch_def min_def max_def)

lemma unionTimeExtent_commute:
  "unionTimeExtent (TimeExtent (Some a) (Some b)) (TimeExtent (Some c) (Some d))
   = unionTimeExtent (TimeExtent (Some c) (Some d)) (TimeExtent (Some a) (Some b))"
  by (simp add: unionTimeExtent_min_max min.commute max.commute)

lemma unionTimeExtent_assoc:
  "unionTimeExtent (unionTimeExtent (TimeExtent (Some a) (Some b)) (TimeExtent (Some c) (Some d)))
     (TimeExtent (Some e) (Some f))
   = unionTimeExtent (TimeExtent (Some a) (Some b))
       (unionTimeExtent (TimeExtent (Some c) (Some d)) (TimeExtent (Some e) (Some f)))"
  by (simp add: unionTimeExtent_min_max min.assoc max.assoc)

lemma extentContains_refl: "extentContains e e"
  by (simp add: extentContains_def)

lemma extentContains_trans:
  "extentContains c b \<Longrightarrow> extentContains b a \<Longrightarrow> extentContains c a"
  by (auto simp add: extentContains_def)

lemma unionTimeExtent_contains: "extentContains (unionTimeExtent e f) f"
  by (cases f)
    (auto simp add: extentContains_def unionTimeExtent_def startMs_def endMs_def
      dt_less_def dt_greater_def)

lemma setFullTimeExtent_union_contains:
  "extentContains (m_fullTimeExtent (setFullTimeExtent (unionTimeExtent e (m_fullTimeExtent s)) s))
     (m_fullTimeExtent s)"
  by (simp add: setFullTimeExtent_full extentContains_refl unionTimeExtent_contains)

subsection \<open>The loop over the eligible layers\<close>

lemma unionLoop_contains:
  "extentContains (m_fullTimeExtent (fst (unionLoop tas s tv))) (m_fullTimeExtent s)"
proof (induction tas arbitrary: s tv)
  case Nil
  show ?case by (simp add: extentContains_refl)
next
  case (Cons ta tas)
  show ?case
    using Cons.IH setFullTimeExtent_union_contains extentContains_trans
    by (simp del: fst_conv) blast
qed

lemma unionLoop_fields:
  "m_mapView (fst (unionLoop tas s tv)) = m_mapView s"
  "m_sceneView (fst (unionLoop tas s tv)) = m_sceneView s"
  "m_intervalMS (fst (unionLoop tas s tv)) = m_intervalMS s"
  "m_numberOfSteps (fst (unionLoop tas s tv)) = m_numberOfSteps s"
  "m_stepTimes (fst (unionLoop tas s tv)) = m_stepTimes s"
  by (induction tas arbitrary: s tv) simp_all


lemma unionLoop_no_interval:
  "\<forall>ta \<in> set tas. isEmptyTV (timeInterval ta) \<Longrightarrow> snd (unionLoop tas s EmptyTimeValue) = EmptyTimeValue"
proof (induction tas arbitrary: s)
  case Nil
  then show ?case by simp
next
  case (Cons ta tas)
  then have "timeInterval ta = EmptyTimeValue" by (cases "timeInterval ta") auto
  with Cons show ?case by (simp add: pickInterval_def)
qed

lemma union_step_nonempty:
  assumes "\<not> isEmpty (m_fullTimeExtent s)"
    and "s1 = setFullTimeExtent (unionTimeExtent e (m_fullTimeExtent s)) s"
  shows "\<not> isEmpty (m_fullTimeExtent s1)"
    and "startMs (m_fullTimeExtent s1) \<le> startMs (m_fullTimeExtent s)"
    and "endMs (m_fullTimeExtent s) \<le> endMs (m_fullTimeExtent s1)"
    and "extent_eq (m_fullTimeExtent s1) (m_fullTimeExtent s) \<Longrightarrow> emitted s1 = emitted s"
  using assms(1) unionTimeExtent_ms [OF assms(1), of e]
  by (auto simp add: assms(2) setFullTimeExtent_full setFullTimeExtent_emitted extent_eq_ms
      split: if_splits)

lemma unionLoop_nonempty:
  assumes "\<not> isEmpty (m_fullTimeExtent s)"
  shows "\<not> isEmpty (m_fullTimeExtent (fst (unionLoop tas s tv)))
    \<and> startMs (m_fullTimeExtent (fst (unionLoop tas s tv))) \<le> startMs (m_fullTimeExtent s)
    \<and> endMs (m_fullTimeExtent s) \<le> endMs (m_fullTimeExtent (fst (unionLoop tas s tv)))
    \<and> (extent_eq (m_fullTimeExtent (fst (unionLoop tas s tv))) (m_fullTimeExtent s)
         \<longrightarrow> emitted (fst (unionLoop tas s tv)) = emitted s)"
  using assms
proof (induction tas arbitrary: s tv)
  case Nil
  then show ?case by simp
next
  case (Cons ta tas)
  define s1 where "s1 = setFullTimeExtent (unionTimeExtent (fullTimeExtent ta) (m_fullTimeExtent s)) s"
  define tv1 where "tv1 = pickInterval tv (timeInterval ta)"
  define s' where "s' = fst (unionLoop tas s1 tv1)"
  have u: "fst (unionLoop (ta # tas) s tv) = s'" by (simp add: s'_def s1_def tv1_def)
  note st = union_step_nonempty [OF Cons.prems s1_def]
  note IH = Cons.IH [OF st(1), of tv1, folded s'_def]
  have "emitted s' = emitted s" if "extent_eq (m_fullTimeExtent s') (m_fullTimeExtent s)"
  proof -
    from that IH st(2,3) have "extent_eq (m_fullTimeExtent s1) (m_fullTimeExtent s)"
      and "extent_eq (m_fullTimeExtent s') (m_fullTimeExtent s1)"
      by (auto simp add: extent_eq_ms)
    with IH st(4) show ?thesis by simp
  qed
  with IH st(2,3) show ?case unfolding u by auto
qed

lemma unionLoop_empty:
  assumes "isEmpty (m_fullTimeExtent s)"
    and "\<forall>ta \<in> set tas. startMs (fullTimeExtent ta) \<le> endMs (fullTimeExtent ta)"
    and "extent_eq (m_fullTimeExtent (fst (unionLoop tas s tv))) (m_fullTimeExtent s)"
  shows "emitted (fst (unionLoop tas s tv)) = emitted s"
  using assms
proof (induction tas arbitrary: s tv)
  case Nil
  then show ?case by simp
next
  case (Cons ta tas)
  define e where "e = fullTimeExtent ta"
  define s1 where "s1 = setFullTimeExtent (unionTimeExtent e (m_fullTimeExtent s)) s"
  define tv1 where "tv1 = pickInterval tv (timeInterval ta)"
  define s' where "s' = fst (unionLoop tas s1 tv1)"
  have u: "fst (unionLoop (ta # tas) s tv) = s'" by (simp add: s'_def s1_def tv1_def e_def)
  have un: "unionTimeExtent e (m_fullTimeExtent s) = e"
    using Cons.prems(1) by (simp add: unionTimeExtent_def)
  have z: "startMs (m_fullTimeExtent s) = 0" "endMs (m_fullTimeExtent s) = 0"
    using isEmpty_ms [OF Cons.prems(1)] by simp_all
  have fin: "startMs (m_fullTimeExtent s') = 0" "endMs (m_fullTimeExtent s') = 0"
    using Cons.prems(3) unfolding u by (simp_all add: extent_eq_ms z)
  show ?case
  proof (cases "extent_eq e (m_fullTimeExtent s)")
    case True
    then have s1: "s1 = s" by (simp add: s1_def un setFullTimeExtent_def)
    have p3: "extent_eq (m_fullTimeExtent (fst (unionLoop tas s tv1))) (m_fullTimeExtent s)"
      using Cons.prems(3) unfolding u s'_def s1 .
    have p2: "\<forall>ta \<in> set tas. startMs (fullTimeExtent ta) \<le> endMs (fullTimeExtent ta)"
      using Cons.prems(2) by simp
    have "emitted (fst (unionLoop tas s tv1)) = emitted s"
      using Cons.prems(1) p2 p3 by (rule Cons.IH)
    then show ?thesis unfolding u s'_def s1 .
  next
    case False
    then have f1: "m_fullTimeExtent s1 = e" by (simp add: s1_def un setFullTimeExtent_full)
    have ne: "\<not> isEmpty e"
      using False isEmpty_ms [of e] by (auto simp add: extent_eq_ms z)
    from unionLoop_nonempty [of s1 tas tv1] ne
    have "startMs (m_fullTimeExtent s') \<le> startMs e" "endMs e \<le> endMs (m_fullTimeExtent s')"
      by (simp_all add: f1 s'_def)
    moreover have "startMs e \<le> endMs e" using Cons.prems(2) by (simp add: e_def)
    ultimately have "startMs e = 0 \<and> endMs e = 0" using fin by simp
    with False show ?thesis by (simp add: extent_eq_ms z)
  qed
qed

lemma unionLoop_emitted:
  "\<exists>k. emitted (fst (unionLoop tas s tv)) = emitted s @ replicate k fullTimeExtentChanged
     \<and> (k = 0 \<longrightarrow> m_fullTimeExtent (fst (unionLoop tas s tv)) = m_fullTimeExtent s)"
proof (induction tas arbitrary: s tv)
  case Nil
  show ?case by simp
next
  case (Cons ta tas)
  define s1 where "s1 = setFullTimeExtent (unionTimeExtent (fullTimeExtent ta) (m_fullTimeExtent s)) s"
  define tv1 where "tv1 = pickInterval tv (timeInterval ta)"
  have u: "unionLoop (ta # tas) s tv = unionLoop tas s1 tv1" by (simp add: s1_def tv1_def)
  from Cons.IH [of s1 tv1] obtain k where
    k: "emitted (fst (unionLoop tas s1 tv1)) = emitted s1 @ replicate k fullTimeExtentChanged"
    and k0: "k = 0 \<longrightarrow> m_fullTimeExtent (fst (unionLoop tas s1 tv1)) = m_fullTimeExtent s1"
    by blast
  show ?case
  proof (cases "extent_eq (unionTimeExtent (fullTimeExtent ta) (m_fullTimeExtent s)) (m_fullTimeExtent s)")
    case True
    then have "s1 = s" by (simp add: s1_def setFullTimeExtent_def)
    with k k0 show ?thesis unfolding u by auto
  next
    case False
    then have "emitted s1 = emitted s @ [fullTimeExtentChanged]"
      by (simp add: s1_def setFullTimeExtent_emitted)
    with k have "emitted (fst (unionLoop tas s1 tv1)) = emitted s @ replicate (Suc k) fullTimeExtentChanged"
      by simp
    then show ?thesis unfolding u by blast
  qed
qed

subsection \<open>The loop over the steps\<close>

lemma stepTimesLoop_Some:
  "stepTimesLoop i n start I acc = Some ts \<Longrightarrow>
   ts = acc @ map (\<lambda>j. addMSecs start (trunc (of_int j * I))) [i..n - 1]"
proof (induction i n start I acc rule: stepTimesLoop.induct)
  case (1 i n start I acc)
  show ?case
  proof (cases "i < n")
    case True
    with "1.prems" obtain ms where
      ms: "toInt64 (of_int i * I) = Some ms"
      and r: "stepTimesLoop (i + 1) n start I (acc @ [addMSecs start ms]) = Some ts"
      by (auto simp add: stepTimesLoop.simps [of i n] split: option.splits)
    have u: "[i..n - 1] = i # [i + 1..n - 1]" using True by (simp add: upto_rec1)
    from "1.IH" [OF True ms r] show ?thesis
      by (simp add: u toInt64_Some [OF ms])
  next
    case False
    with "1.prems" show ?thesis by (simp add: stepTimesLoop.simps [of i n])
  qed
qed

lemma stepTimes_length:
  "stepTimesLoop 0 n start I [] = Some ts \<Longrightarrow> length ts = nat n"
  by (drule stepTimesLoop_Some) simp

lemma stepTimes_nth:
  assumes "stepTimesLoop 0 n start I [] = Some ts" and "0 \<le> i" and "i < n"
  shows "ts ! nat i = addMSecs start (trunc (of_int i * I))"
proof -
  have ts: "ts = map (\<lambda>j. addMSecs start (trunc (of_int j * I))) [0..n - 1]"
    using stepTimesLoop_Some [OF assms(1)] by simp
  have l: "nat i < length [0..n - 1]" using assms(2,3) by simp
  have "[0..n - 1] ! nat i = i" using assms(2,3) by simp
  with l show ?thesis by (simp add: ts)
qed

lemma stepTimes_sorted:
  assumes "stepTimesLoop 0 n start I [] = Some ts" and "0 \<le> I \<or> n \<le> 1"
  shows "sorted (map toMSecsSinceEpoch ts)"
proof (cases "n \<le> 1")
  case True
  then have "length ts \<le> 1" using stepTimes_length [OF assms(1)] by simp
  then have "length (map toMSecsSinceEpoch ts) \<le> 1" by simp
  then show ?thesis by (rule sorted01)
next
  case False
  with assms(2) have I: "0 \<le> I" by simp
  have len: "length ts = nat n" by (rule stepTimes_length [OF assms(1)])
  have nth: "toMSecsSinceEpoch (ts ! k) = toMSecsSinceEpoch (addMSecs start (trunc (of_int (int k) * I)))"
    if "k < nat n" for k
    using stepTimes_nth [OF assms(1), of "int k"] that by simp
  have mono: "toMSecsSinceEpoch (addMSecs start a) \<le> toMSecsSinceEpoch (addMSecs start b)"
    if "a \<le> b" for a b
    using that by (cases start) (simp_all add: addMSecs_def toMSecsSinceEpoch_def)
  show ?thesis
  proof (simp add: sorted_iff_nth_mono len, intro allI impI)
    fix i j
    assume ij: "i \<le> j" and j: "j < nat n"
    then have i: "i < nat n" by simp
    have "of_int (int i) * I \<le> of_int (int j) * I"
      using ij I by (intro mult_right_mono) simp_all
    then have "trunc (of_int (int i) * I) \<le> trunc (of_int (int j) * I)" by (rule trunc_mono)
    then show "toMSecsSinceEpoch (ts ! i) \<le> toMSecsSinceEpoch (ts ! j)"
      by (simp add: nth [OF i] nth [OF j] mono)
  qed
qed

subsection \<open>Intervals in milliseconds\<close>




lemma toMilliseconds_empty [simp]: "toMilliseconds EmptyTimeValue = 0"
  by (simp add: toMilliseconds_def)







subsection \<open>The two paths of a recomputation\<close>

lemma initialize_skip:
  assumes "initializeTimeProperties s = Some s'" and "eligible s = []"
  shows "m_fullTimeExtent s' = m_fullTimeExtent s" and "emitted s' = emitted s"
    and "m_numberOfSteps s' = m_numberOfSteps s" and "m_stepTimes s' = m_stepTimes s"
    and "m_intervalMS s' = m_intervalMS s"
  using assms
  by (auto simp add: initializeTimeProperties_def eligible_def Let_def split: option.splits prod.splits)

lemma initialize_run:
  assumes "initializeTimeProperties s = Some s'" and "eligible s \<noteq> []"
  obtains s1 s2 tv where
    "m_fullTimeExtent s1 = m_fullTimeExtent s" and "emitted s1 = emitted s"
    and "m_numberOfSteps s1 = m_numberOfSteps s"
    and "m_mapView s1 = m_mapView s" and "m_sceneView s1 = m_sceneView s"
    and "unionLoop (eligible s) s1 EmptyTimeValue = (s2, tv)"
    and "deriveSteps tv s2 = Some s'"
proof -
  from assms obtain layers where l: "m_operationalLayers s = Some layers"
    by (auto simp add: eligible_def split: option.splits)
  obtain tas conns where sc: "scanLayers 0 layers = (tas, conns)" by fastforce
  define s1 where "s1 = s\<lparr>doneLoadingConnections := doneLoadingConnections s @ conns\<rparr>"
  obtain s2 tv where u: "unionLoop tas s1 EmptyTimeValue = (s2, tv)" by fastforce
  have e: "eligible s = tas" by (simp add: eligible_def l sc)
  with assms have "deriveSteps tv s2 = Some s'"
    by (simp add: initializeTimeProperties_def l sc Let_def s1_def [symmetric] u)
  with u e show thesis
    by (intro that [of s1 s2 tv]) (simp_all add: s1_def)
qed

lemma initialize_contains:
  assumes "initializeTimeProperties s = Some s'"
  shows "extentContains (m_fullTimeExtent s') (m_fullTimeExtent s)"
proof (cases "eligible s = []")
  case True
  with assms show ?thesis by (simp add: initialize_skip extentContains_refl)
next
  case False
  with assms obtain s1 s2 tv where
    f: "m_fullTimeExtent s1 = m_fullTimeExtent s"
    and u: "unionLoop (eligible s) s1 EmptyTimeValue = (s2, tv)"
    and d: "deriveSteps tv s2 = Some s'"
    by (rule initialize_run)
  have "extentContains (m_fullTimeExtent s2) (m_fullTimeExtent s1)"
    using unionLoop_contains [of "eligible s" s1 EmptyTimeValue] by (simp add: u)
  then show ?thesis by (simp add: deriveSteps_facts(1) [OF d] f)
qed

lemma stepCountInvariant_run:
  assumes "initializeTimeProperties s = Some s'" and "eligible s \<noteq> []"
  shows "stepCountInvariant s'"
  unfolding stepCountInvariant_def
proof (intro impI, elim conjE)
  define R where "R = endMs (m_fullTimeExtent s') - startMs (m_fullTimeExtent s')"
  define I where "I = m_intervalMS s'"
  define a where "a = \<lfloor>of_int R / I\<rfloor>"
  assume wf: "startMs (m_fullTimeExtent s') \<le> endMs (m_fullTimeExtent s')"
    and R53: "endMs (m_fullTimeExtent s') - startMs (m_fullTimeExtent s') \<le> 2 ^ 53"
    and I: "0 < m_intervalMS s'"
  from assms obtain s2 tv where d: "deriveSteps tv s2 = Some s'"
    by (rule initialize_run)
  note f = deriveSteps_facts [OF d]
  have n: "m_numberOfSteps s' = stepCount R I" using f(5) by (simp add: f(1) R_def I_def)
  have R0: "0 \<le> R" using wf by (simp add: R_def)
  have len: "length (m_stepTimes s') = nat (m_numberOfSteps s')" by (rule stepTimes_length [OF f(6)])
  have a0: "0 \<le> a" using R0 I by (simp add: a_def I_def)
  have general: "a + 1 \<le> m_numberOfSteps s' \<and> m_numberOfSteps s' \<le> a + 2
      \<and> int (length (m_stepTimes s')) = m_numberOfSteps s'" if "a + 2 < 2 ^ 31"
  proof -
    have "a + 1 \<le> stepCount R I \<and> stepCount R I \<le> a + 2"
      using R0 R53 I that by (intro stepCount_bounds) (simp_all add: R_def I_def a_def)
    with a0 show ?thesis by (simp add: n len)
  qed
  have whole: "m_numberOfSteps s' = a + 1 \<and> int (length (m_stepTimes s')) = m_numberOfSteps s'"
    if "I = of_int \<lfloor>I\<rfloor>" "R \<le> 2 ^ 50" "I \<le> 2 ^ 50" "a + 1 < 2 ^ 31"
  proof -
    define m where "m = \<lfloor>I\<rfloor>"
    have Im: "I = of_int m" using that(1) by (simp add: m_def)
    have m0: "0 < m" using I by (simp add: I_def [symmetric] Im)
    have "(of_int m :: rat) \<le> of_int (2 ^ 50)" using that(3) by (simp add: Im)
    then have m50: "m \<le> 2 ^ 50" by (simp only: of_int_le_iff)
    have "stepCount R (of_int m) = a + 1"
      using R0 that(2) m0 m50 that(4) by (intro stepCount_whole) (simp_all add: a_def Im)
    with a0 show ?thesis by (simp add: n len Im)
  qed
  from general whole
  show "stepCountSpec (endMs (m_fullTimeExtent s') - startMs (m_fullTimeExtent s'))
      (m_intervalMS s') (m_numberOfSteps s') (length (m_stepTimes s'))"
    unfolding stepCountSpec_def R_def [symmetric] I_def [symmetric] a_def [symmetric] by blast
qed

lemma stepCountInvariant_step:
  assumes "initializeTimeProperties s = Some s'"
    and "eligible s = [] \<longrightarrow> stepCountInvariant s"
  shows "stepCountInvariant s'"
proof (cases "eligible s = []")
  case True
  with assms(2) initialize_skip [OF assms(1) True] show ?thesis
    by (simp add: stepCountInvariant_def)
next
  case False
  with assms(1) show ?thesis by (rule stepCountInvariant_run)
qed

lemma stepCountInvariant_sequence:
  assumes "recomputations layerss s = Some s'" and "stepCountInvariant s"
  shows "stepCountInvariant s'"
  using assms
proof (induction layerss arbitrary: s)
  case Nil
  then show ?case by simp
next
  case (Cons layers rest)
  define s0 where "s0 = s\<lparr>m_operationalLayers := layers\<rparr>"
  from Cons.prems(1) obtain s1 where
    i: "initializeTimeProperties s0 = Some s1"
    and r: "recomputations rest s1 = Some s'"
    by (auto simp add: onOperationalLayersChanged_def s0_def split: option.splits)
  have "stepCountInvariant s0" using Cons.prems(2) by (simp add: stepCountInvariant_def s0_def)
  then have "stepCountInvariant s1" using stepCountInvariant_step [OF i] by simp
  with Cons.IH [OF r] show ?case .
qed

lemma stepTimesInvariant_run:
  assumes "initializeTimeProperties s = Some s'" and "eligible s \<noteq> []"
  shows "stepTimesInvariant s'"
  unfolding stepTimesInvariant_def
proof (intro allI impI, elim conjE)
  fix t0
  assume st: "startTime (m_fullTimeExtent s') = Some t0"
    and wf: "startMs (m_fullTimeExtent s') \<le> endMs (m_fullTimeExtent s')"
  from assms obtain s2 tv where d: "deriveSteps tv s2 = Some s'"
    by (rule initialize_run)
  note f = deriveSteps_facts [OF d]
  have loop: "stepTimesLoop 0 (m_numberOfSteps s') (Some t0) (m_intervalMS s') [] = Some (m_stepTimes s')"
    using f(6) st by (simp add: f(1))
  have nth: "m_stepTimes s' ! nat i = Some (t0 + trunc (of_int i * m_intervalMS s'))"
    if "0 \<le> i" "i < m_numberOfSteps s'" for i
    using stepTimes_nth [OF loop that] by (simp add: addMSecs_def)
  have cnt: "m_numberOfSteps s' =
      stepCount (endMs (m_fullTimeExtent s') - startMs (m_fullTimeExtent s')) (m_intervalMS s')"
    using f(5) by (simp add: f(1))
  have "0 \<le> m_intervalMS s' \<or> m_numberOfSteps s' \<le> 1"
  proof (cases "0 \<le> m_intervalMS s'")
    case True
    then show ?thesis by simp
  next
    case False
    then have neg: "m_intervalMS s' < 0" by simp
    have "0 \<le> endMs (m_fullTimeExtent s') - startMs (m_fullTimeExtent s')" using wf by simp
    then have "m_numberOfSteps s' \<le> 1" unfolding cnt using neg by (rule stepCount_neg_interval)
    then show ?thesis by simp
  qed
  then have srt: "sorted (map toMSecsSinceEpoch (m_stepTimes s'))"
    by (rule stepTimes_sorted [OF loop])
  have first: "m_stepTimes s' \<noteq> [] \<and> hd (m_stepTimes s') = Some t0" if "0 < m_numberOfSteps s'"
  proof -
    have ne: "m_stepTimes s' \<noteq> []" using stepTimes_length [OF loop] that by auto
    have "m_stepTimes s' ! nat 0 = Some (t0 + trunc (of_int 0 * m_intervalMS s'))"
      using that by (intro nth) simp_all
    then have "m_stepTimes s' ! 0 = Some t0" by (simp add: trunc_def)
    with ne show ?thesis by (simp add: hd_conv_nth)
  qed
  from nth srt first
  show "(\<forall>i. 0 \<le> i \<and> i < m_numberOfSteps s' \<longrightarrow>
            m_stepTimes s' ! nat i = Some (t0 + trunc (of_int i * m_intervalMS s')))
      \<and> sorted (map toMSecsSinceEpoch (m_stepTimes s'))
      \<and> (0 < m_numberOfSteps s' \<longrightarrow> m_stepTimes s' \<noteq> [] \<and> hd (m_stepTimes s') = Some t0)"
    by blast
qed

lemma stepTimesInvariant_step:
  assumes "initializeTimeProperties s = Some s'"
    and "eligible s = [] \<longrightarrow> stepTimesInvariant s"
  shows "stepTimesInvariant s'"
proof (cases "eligible s = []")
  case True
  with assms(2) initialize_skip [OF assms(1) True] show ?thesis
    by (simp add: stepTimesInvariant_def)
next
  case False
  with assms(1) show ?thesis by (rule stepTimesInvariant_run)
qed

lemma stepTimesInvariant_sequence:
  assumes "recomputations layerss s = Some s'" and "stepTimesInvariant s"
  shows "stepTimesInvariant s'"
  using assms
proof (induction layerss arbitrary: s)
  case Nil
  then show ?case by simp
next
  case (Cons layers rest)
  define s0 where "s0 = s\<lparr>m_operationalLayers := layers\<rparr>"
  from Cons.prems(1) obtain s1 where
    i: "initializeTimeProperties s0 = Some s1"
    and r: "recomputations rest s1 = Some s'"
    by (auto simp add: onOperationalLayersChanged_def s0_def split: option.splits)
  have "stepTimesInvariant s0" using Cons.prems(2) by (simp add: stepTimesInvariant_def s0_def)
  then have "stepTimesInvariant s1" using stepTimesInvariant_step [OF i] by simp
  with Cons.IH [OF r] show ?case .
qed

lemma setStartInterval_round_trip:
  assumes "setStartInterval k s = Some s'"
    and "\<not> isEmpty (m_fullTimeExtent s)"
    and "m_sceneView s \<noteq> None \<or> m_mapView s \<noteq> None"
    and "m_intervalMS s = of_int m" and "0 < m"
  shows "m_startStep s' = k"
proof -
  define start where "start = toMSecsSinceEpoch (startTime (m_fullTimeExtent s))"
  define newExtent where "newExtent = TimeExtent (fromMSecsSinceEpoch (start + k * m)) (currentExtentEnd s)"
  define s1 where "s1 = viewSetTimeExtent newExtent s"
  have "of_int start + of_int k * (of_int m :: rat) = of_int (start + k * m)" by simp
  then have t: "trunc (of_int start + of_int k * (of_int m :: rat)) = start + k * m"
    by (simp only: trunc_of_int)
  from assms(1,2) obtain ms where
    ms: "stepToMSecs start (m_intervalMS s) k = Some ms"
    and p: "pushExtent (TimeExtent (fromMSecsSinceEpoch ms) (currentExtentEnd s)) s = Some s'"
    by (auto simp add: setStartInterval_def Let_def start_def split: option.splits)
  have "ms = start + k * m"
    using ms toInt64_Some [of "of_int start + of_int k * of_int m" ms]
    by (simp add: stepToMSecs_def assms(4) t)
  with p obtain s2 where
    c: "calculateStepPositions s1 = Some s2" and s': "s' = emit currentTimeExtentChanged s2"
    by (auto simp add: pushExtent_def s1_def newExtent_def split: option.splits)
  have f1: "m_fullTimeExtent s1 = m_fullTimeExtent s" "m_intervalMS s1 = m_intervalMS s"
    by (simp_all add: s1_def viewSetTimeExtent_def)
  have cur: "currentTimeExtent s1 = newExtent"
    using assms(3) by (auto simp add: s1_def viewSetTimeExtent_def currentTimeExtent_def newExtent_def)
  have "stepOf (toMSecsSinceEpoch (currentExtentStart s1)) (toMSecsSinceEpoch (fullExtentStart s1))
          (m_intervalMS s1) = Some (m_startStep s2)"
    using c assms(2) by (intro calculateStepPositions_steps) (simp_all add: f1)
  then have "stepOf (start + k * m) start (of_int m) = Some (m_startStep s2)"
    by (simp add: currentExtentStart_def cur newExtent_def fromMSecsSinceEpoch_def
        toMSecsSinceEpoch_def [of "Some _"] fullExtentStart_def f1 start_def assms(4))
  then have "toInt (of_int k) = Some (m_startStep s2)"
    using assms(5) by (simp add: stepOf_def ddiv_def)
  from toInt_Some [OF this] show ?thesis by (simp add: s')
qed

subsection \<open>The example controllers, evaluated\<close>

lemmas eval_defs =
  initializeTimeProperties_def deriveSteps_def unionTimeExtent_def setFullTimeExtent_def
  setNumberOfSteps_def setStepTimes_def calculateStepPositions_def stepCount_examples stepOf_def
  resolveInterval_def pickInterval_def tv_greater_def toMilliseconds_def toTimeUnit_def
  extent_eq_def dt_eq_def dt_less_def dt_greater_def toMSecsSinceEpoch_def addMSecs_def
  fromMSecsSinceEpoch_def toInt_def toInt64_def trunc_def ddiv_def emit_def
  currentExtentStart_def currentExtentEnd_def currentTimeExtent_def fullExtentStart_def
  fullExtentEnd_def stepTimesLoop.simps exLayer_def exController_def Let_def
  eligible_def startMs_def endMs_def

lemma ex1_run: "initializeTimeProperties ex1_before = Some ex1_after"
  by (simp add: ex1_before_def ex1_after_def eval_defs)

lemma ex1_eligible:
  "eligible ex1_before =
     [\<lparr>fullTimeExtent = TimeExtent (Some 0) (Some 5000), timeInterval = EmptyTimeValue,
       isTimeFilteringEnabled = True\<rparr>]"
  by (simp add: ex1_before_def eval_defs)


section \<open>The claims\<close>

subsection \<open>C1: change notifications\<close>

text \<open>
  What a recomputation emits. When no layer is eligible it emits nothing. Otherwise the
  step-times and current-extent signals are always among the signals it emits, and the
  step-count signal is among them exactly when the count changed. When every eligible
  layer's extent has its start not after its end, the full-extent signal is among them
  exactly when the full extent after differs from the one before.
\<close>

lemma recompute_signals:
  assumes init: "initializeTimeProperties s = Some s'"
    and wf: "\<forall>ta \<in> set (eligible s). startMs (fullTimeExtent ta) \<le> endMs (fullTimeExtent ta)"
  shows "emitted s' = emitted s @ newSignals s s'
    \<and> ((fullTimeExtentChanged \<in> set (newSignals s s'))
         = (\<not> extent_eq (m_fullTimeExtent s') (m_fullTimeExtent s)))
    \<and> ((numberOfStepsChanged \<in> set (newSignals s s'))
         = (m_numberOfSteps s' \<noteq> m_numberOfSteps s))
    \<and> (eligible s = [] \<longrightarrow> newSignals s s' = [])
    \<and> (eligible s \<noteq> [] \<longrightarrow>
          stepTimesChanged \<in> set (newSignals s s') \<and> currentTimeExtentChanged \<in> set (newSignals s s'))"
proof (cases "eligible s = []")
  case True
  note sk = initialize_skip [OF init True]
  show ?thesis by (simp add: True newSignals_def sk extent_eq_ms)
next
  case False
  from init False obtain s1 s2 tv where
    f1: "m_fullTimeExtent s1 = m_fullTimeExtent s"
    and e1: "emitted s1 = emitted s"
    and n1: "m_numberOfSteps s1 = m_numberOfSteps s"
    and u: "unionLoop (eligible s) s1 EmptyTimeValue = (s2, tv)"
    and d: "deriveSteps tv s2 = Some s'"
    by (rule initialize_run)
  have s2: "s2 = fst (unionLoop (eligible s) s1 EmptyTimeValue)" by (simp add: u)
  note f = deriveSteps_facts [OF d]
  obtain k where
    k: "emitted s2 = emitted s @ replicate k fullTimeExtentChanged"
    and k0: "k = 0 \<longrightarrow> m_fullTimeExtent s2 = m_fullTimeExtent s"
    using unionLoop_emitted [of "eligible s" s1 EmptyTimeValue] by (auto simp add: s2 e1 f1)
  have n2: "m_numberOfSteps s2 = m_numberOfSteps s"
    by (simp add: s2 unionLoop_fields n1)
  define rest where "rest =
      (if m_numberOfSteps s' = m_numberOfSteps s then [] else [numberOfStepsChanged])
      @ (if isEmpty (m_fullTimeExtent s2) then [] else [startStepChanged, endStepChanged])
      @ [stepTimesChanged, currentTimeExtentChanged]"
  have em: "emitted s' = emitted s @ replicate k fullTimeExtentChanged @ rest"
    using f(7) by (simp add: k n2 rest_def)
  then have new: "newSignals s s' = replicate k fullTimeExtentChanged @ rest"
    by (simp add: newSignals_def)
  have unchanged: "k = 0" if eq: "extent_eq (m_fullTimeExtent s') (m_fullTimeExtent s)"
  proof -
    have eq2: "extent_eq (m_fullTimeExtent (fst (unionLoop (eligible s) s1 EmptyTimeValue)))
        (m_fullTimeExtent s1)"
      using eq by (simp add: f(1) s2 [symmetric] f1)
    have "emitted s2 = emitted s1"
    proof (cases "isEmpty (m_fullTimeExtent s1)")
      case True
      from unionLoop_empty [OF True wf eq2] show ?thesis by (simp add: s2)
    next
      case False
      from unionLoop_nonempty [OF False, of "eligible s" EmptyTimeValue] eq2
      show ?thesis by (simp add: s2)
    qed
    with k e1 show ?thesis by simp
  qed
  have changed: "extent_eq (m_fullTimeExtent s') (m_fullTimeExtent s)" if "k = 0"
    using that k0 by (simp add: f(1) extent_eq_ms)
  have fte: "(fullTimeExtentChanged \<in> set (newSignals s s'))
      = (\<not> extent_eq (m_fullTimeExtent s') (m_fullTimeExtent s))"
    using unchanged changed by (auto simp add: new rest_def)
  have nos: "(numberOfStepsChanged \<in> set (newSignals s s')) = (m_numberOfSteps s' \<noteq> m_numberOfSteps s)"
    by (auto simp add: new rest_def)
  have always: "stepTimesChanged \<in> set (newSignals s s') \<and> currentTimeExtentChanged \<in> set (newSignals s s')"
    by (simp add: new rest_def)
  from em new fte nos always False show ?thesis by simp
qed

text \<open>
  Claim C1, as amended. A recomputation emits the full-extent notification exactly when
  the full extent it ends with differs from the one it started with, and the step-count
  notification exactly when the step count differs; a recomputation that finds no
  eligible layer emits no notification at all. (The extents of the eligible layers have
  their start not after their end.)
\<close>

theorem recompute_notifications:
  assumes "initializeTimeProperties s = Some s'"
    and "\<forall>ta \<in> set (eligible s). startMs (fullTimeExtent ta) \<le> endMs (fullTimeExtent ta)"
  shows "emitted s' = emitted s @ newSignals s s'
    \<and> ((fullTimeExtentChanged \<in> set (newSignals s s'))
         = (\<not> extent_eq (m_fullTimeExtent s') (m_fullTimeExtent s)))
    \<and> ((numberOfStepsChanged \<in> set (newSignals s s'))
         = (m_numberOfSteps s' \<noteq> m_numberOfSteps s))
    \<and> (eligible s = [] \<longrightarrow> newSignals s s' = [])"
  using recompute_signals [OF assms] by simp

theorem recompute_notifications_witness:
  "initializeTimeProperties ex1_before = Some ex1_after
   \<and> newSignals ex1_before ex1_after =
       [fullTimeExtentChanged, numberOfStepsChanged, startStepChanged, endStepChanged,
        stepTimesChanged, currentTimeExtentChanged]
   \<and> \<not> extent_eq (m_fullTimeExtent ex1_after) (m_fullTimeExtent ex1_before)
   \<and> m_numberOfSteps ex1_after \<noteq> m_numberOfSteps ex1_before"
proof -
  have wf: "\<forall>ta \<in> set (eligible ex1_before). startMs (fullTimeExtent ta) \<le> endMs (fullTimeExtent ta)"
    by (simp add: ex1_eligible startMs_def endMs_def toMSecsSinceEpoch_def)
  have new: "newSignals ex1_before ex1_after =
       [fullTimeExtentChanged, numberOfStepsChanged, startStepChanged, endStepChanged,
        stepTimesChanged, currentTimeExtentChanged]"
    by (simp add: newSignals_def ex1_after_def ex1_before_def exController_def)
  from recompute_notifications [OF ex1_run wf] show ?thesis
    using ex1_run by (simp add: new)
qed

text \<open>
  The claim as first stated fails: recomputing again on the same layer leaves every
  value as it was, and still the step, step-times and current-extent signals are emitted.
\<close>

theorem noop_recomputation_emits:
  "initializeTimeProperties ex1_after =
     Some (ex1_after\<lparr>emitted := emitted ex1_after
        @ [startStepChanged, endStepChanged, stepTimesChanged, currentTimeExtentChanged]\<rparr>)"
  by (simp add: ex1_before_def ex1_after_def eval_defs)

subsection \<open>C2: the step count\<close>




subsection \<open>C3: the union of two extents\<close>

text \<open>
  Claim C3 at an empty first operand. The function tests only its second operand for
  emptiness. With an empty first operand and the extent 2001 to 2033 as the second, it
  compares the null times of the empty extent and returns an extent with a null start,
  not the second operand; with the operands exchanged it returns the extent unchanged.
  A recomputation meets this case when a layer that failed to load follows a layer with an
  extent: the full extent loses its start and the step time is null. (Over non-empty
  extents with valid times the union is the minimum of the starts and the maximum of the
  ends, commutative and associative: \<open>unionTimeExtent_min_max\<close>, \<open>unionTimeExtent_commute\<close>,
  \<open>unionTimeExtent_assoc\<close>.)
\<close>

theorem unionTimeExtent_empty_first_operand:
  "unionTimeExtent EmptyTimeExtent ex3_extent = TimeExtent None (Some 2000000000000)
   \<and> \<not> extent_eq (unionTimeExtent EmptyTimeExtent ex3_extent) ex3_extent
   \<and> unionTimeExtent ex3_extent EmptyTimeExtent = ex3_extent
   \<and> map_option m_fullTimeExtent (initializeTimeProperties ex3_before)
       = Some (TimeExtent None (Some 2000000000000))
   \<and> map_option m_stepTimes (initializeTimeProperties ex3_before) = Some [None]"
  by (simp add: ex3_extent_def ex3_before_def exFailedLayer_def eval_defs)

subsection \<open>C4: the full extent only widens\<close>

text \<open>
  Claim C4. Over every sequence of recomputations, whatever the layer lists, the full
  extent at the end contains the full extent at the beginning.
\<close>

theorem fullTimeExtent_only_widens:
  "recomputations layerss s = Some s' \<Longrightarrow> extentContains (m_fullTimeExtent s') (m_fullTimeExtent s)"
proof (induction layerss arbitrary: s)
  case Nil
  then show ?case by (simp add: extentContains_refl)
next
  case (Cons layers rest)
  from Cons.prems obtain s1 where
    i: "initializeTimeProperties (s\<lparr>m_operationalLayers := layers\<rparr>) = Some s1"
    and r: "recomputations rest s1 = Some s'"
    by (auto simp add: onOperationalLayersChanged_def split: option.splits)
  have "extentContains (m_fullTimeExtent s1) (m_fullTimeExtent s)"
    using initialize_contains [OF i] by simp
  with Cons.IH [OF r] show ?case by (blast intro: extentContains_trans)
qed

theorem fullTimeExtent_only_widens_witness:
  "recomputations [m_operationalLayers ex1_before, Some ex4_layers] ex1_before = Some ex4_after
   \<and> extentContains (m_fullTimeExtent ex4_after) (m_fullTimeExtent ex1_before)
   \<and> m_fullTimeExtent ex4_after = TimeExtent (Some 0) (Some 5000)"
proof -
  have r: "recomputations [m_operationalLayers ex1_before, Some ex4_layers] ex1_before = Some ex4_after"
    by (simp add: onOperationalLayersChanged_def ex4_after_def ex4_layers_def ex1_after_def
        ex1_before_def eval_defs)
  from fullTimeExtent_only_widens [OF r] show ?thesis
    using r by (simp add: ex4_after_def ex1_after_def)
qed

subsection \<open>C5: the step times\<close>




subsection \<open>C6: from a step index to a time and back\<close>

text \<open>
  Claim C6, as amended. When the interval is a positive whole number \<open>m\<close> of milliseconds,
  the setters turn a step index \<open>k\<close> into the time \<open>start + k * m\<close>, and
  \<^verbatim>\<open>calculateStepPositions\<close> turns that time back into \<open>k\<close>. Both conversions are defined for
  every index that fits an \<^verbatim>\<open>int\<close> whose time fits a \<^verbatim>\<open>qint64\<close>. (On a controller with a
  view, \<open>setStartInterval_round_trip\<close> is the same fact for \<^verbatim>\<open>setStartInterval\<close> itself.)
\<close>

theorem index_time_round_trip:
  assumes "0 < m" and "- (2 ^ 31) \<le> k" and "k < 2 ^ 31"
    and "- (2 ^ 63) \<le> start + k * m" and "start + k * m < 2 ^ 63"
  shows "stepToMSecs start (of_int m) k = Some (start + k * m)
         \<and> stepOf (start + k * m) start (of_int m) = Some k"
proof -
  have "of_int start + of_int k * (of_int m :: rat) = of_int (start + k * m)" by simp
  then have t: "trunc (of_int start + of_int k * (of_int m :: rat)) = start + k * m"
    by (simp only: trunc_of_int)
  have a: "stepToMSecs start (of_int m) k = Some (start + k * m)"
    using assms(4,5) by (simp add: stepToMSecs_def toInt64_def t)
  have "(of_int (start + k * m - start) :: rat) / of_int m = of_int k" using assms(1) by simp
  then have b: "stepOf (start + k * m) start (of_int m) = Some k"
    using assms(1,2,3) by (simp add: stepOf_def ddiv_def toInt_def)
  from a b show ?thesis by simp
qed

theorem index_time_round_trip_witness:
  "stepToMSecs 0 1000 3 = Some 3000 \<and> stepOf 3000 0 1000 = Some 3"
  using index_time_round_trip [of 1000 3 0] by simp

text \<open>
  The claim as first stated fails for an interval of one and a half milliseconds: index 1
  of 3 steps becomes the time 1, which is in step 0; \<^verbatim>\<open>setStartInterval(1)\<close> leaves the start
  step at 0.
\<close>

theorem round_trip_fractional_interval:
  "stepToMSecs 0 (3 / 2) 1 = Some 1 \<and> stepOf 1 0 (3 / 2) = Some 0
   \<and> map_option m_numberOfSteps (initializeTimeProperties ex5_before) = Some 3
   \<and> map_option m_intervalMS (initializeTimeProperties ex5_before) = Some (3 / 2)
   \<and> map_option m_startStep (Option.bind (initializeTimeProperties ex5_before) (setStartInterval 1))
       = Some 0"
  by (simp add: ex5_before_def stepToMSecs_def setStartInterval_def pushExtent_def
      viewSetTimeExtent_def eval_defs)

subsection \<open>C7: the coarsest interval\<close>



subsection \<open>C8: the estimated interval\<close>

text \<open>
  Claim C8. When no eligible layer reports an interval, a recomputation resolves the
  interval to one unit, the unit estimated from the range of the full extent. The estimate
  is seconds at 59,999 ms, minutes at 60,000 ms, hours at 86,399,999 ms, days at
  86,400,000 ms and one millisecond below 365 days, years at 365 days, and centuries for
  every range above 100 times 365 days.
\<close>

theorem estimated_interval:
  assumes "initializeTimeProperties s = Some s'"
    and "eligible s \<noteq> []"
    and "nativeIntervals s = []"
  shows "m_intervalMS s' =
           toMilliseconds (TimeValue 1
             (toTimeUnit (of_int (endMs (m_fullTimeExtent s') - startMs (m_fullTimeExtent s')))))
    \<and> toTimeUnit 59999 = Seconds
    \<and> toTimeUnit 60000 = Minutes
    \<and> toTimeUnit 86399999 = Hours
    \<and> toTimeUnit 86400000 = Days
    \<and> toTimeUnit (365 * 86400000 - 1) = Days
    \<and> toTimeUnit (365 * 86400000) = Years
    \<and> (\<forall>R. R > 100 * 365 * 86400000 \<longrightarrow> toTimeUnit R = Centuries)"
proof -
  from assms(1,2) obtain s1 s2 tv where
    u: "unionLoop (eligible s) s1 EmptyTimeValue = (s2, tv)"
    and d: "deriveSteps tv s2 = Some s'"
    by (rule initialize_run)
  have "\<forall>ta \<in> set (eligible s). isEmptyTV (timeInterval ta)"
    using assms(3) by (auto simp add: nativeIntervals_def filter_empty_conv)
  then have "snd (unionLoop (eligible s) s1 EmptyTimeValue) = EmptyTimeValue"
    by (rule unionLoop_no_interval)
  then have tv: "tv = EmptyTimeValue" by (simp add: u)
  have "m_intervalMS s' =
           toMilliseconds (TimeValue 1
             (toTimeUnit (of_int (endMs (m_fullTimeExtent s') - startMs (m_fullTimeExtent s')))))"
    using deriveSteps_facts(4) [OF d] by (simp add: tv resolveInterval_def deriveSteps_facts(1) [OF d])
  then show ?thesis by (simp add: toTimeUnit_def)
qed

theorem estimated_interval_witness:
  "initializeTimeProperties ex1_before = Some ex1_after
   \<and> nativeIntervals ex1_before = []
   \<and> m_intervalMS ex1_after = toMilliseconds (TimeValue 1 Seconds)
   \<and> toTimeUnit (100 * 365 * 86400000 + 1) = Centuries"
proof -
  have e: "eligible ex1_before \<noteq> []" by (simp add: ex1_eligible)
  have n: "nativeIntervals ex1_before = []" by (simp add: nativeIntervals_def ex1_eligible)
  from estimated_interval [OF ex1_run e n] show ?thesis
    using ex1_run n by (simp add: ex1_after_def toMilliseconds_def)
qed

subsection \<open>C9: the step setters on an empty full extent\<close>

text \<open>
  Claim C9. While the full extent is empty, each of the three step setters returns the
  state it was given: no signal is emitted, the view's setter is not called, and no member
  changes.
\<close>

theorem step_setters_noop:
  assumes "isEmpty (m_fullTimeExtent s)"
  shows "setStartInterval k s = Some s \<and> setEndInterval k s = Some s
    \<and> setStartAndEndIntervals i j s = Some s"
  using assms by (simp add: setStartInterval_def setEndInterval_def setStartAndEndIntervals_def)

theorem step_setters_noop_witness:
  "isEmpty (m_fullTimeExtent ex9_state)
   \<and> setStartInterval 2 ex9_state = Some ex9_state
   \<and> setEndInterval 3 ex9_state = Some ex9_state
   \<and> setStartAndEndIntervals 1 4 ex9_state = Some ex9_state
   \<and> emitted ex9_state = [] \<and> setTimeExtentCalls ex9_state = []"
proof -
  have e: "isEmpty (m_fullTimeExtent ex9_state)" by (simp add: ex9_state_def exController_def)
  from step_setters_noop [OF e, of 2 1 4] step_setters_noop [OF e, of 3 1 4] show ?thesis
    using e by (simp add: ex9_state_def exController_def)
qed

subsection \<open>C10: step indices are not clamped\<close>




end
